theory Spec2Isabelle
  imports Main "HOL-Library.Sublist"
begin

section \<open>Strings as the store and the resolver use them\<close>

text \<open>
  Strings are lists of characters. The model covers ASCII text: \<open>toLowerCase\<close> maps
  \<open>A\<close>..\<open>Z\<close> to \<open>a\<close>..\<open>z\<close> and leaves every other character alone, and the white space
  of \<open>trim\<close> and of the regular expression \<open>\\s+\<close> is space, tab, line feed, vertical tab,
  form feed and carriage return.
\<close>

definition upperCase :: string where
  "upperCase = ''ABCDEFGHIJKLMNOPQRSTUVWXYZ''"

definition lowerCase :: string where
  "lowerCase = ''abcdefghijklmnopqrstuvwxyz''"

definition toLowerChar :: "char \<Rightarrow> char" where
  "toLowerChar c = (case map_of (zip upperCase lowerCase) c of Some l \<Rightarrow> l | None \<Rightarrow> c)"

definition toLowerCase :: "string \<Rightarrow> string" where
  "toLowerCase s = map toLowerChar s"

definition isSpace :: "char \<Rightarrow> bool" where
  "isSpace c = (c \<in> {CHR '' '', CHR 0x09, CHR 0x0A, CHR 0x0B, CHR 0x0C, CHR 0x0D})"

definition trim :: "string \<Rightarrow> string" where
  "trim s = rev (dropWhile isSpace (rev (dropWhile isSpace s)))"

text \<open>
  \<open>s.split(/\\s+/)\<close>: the pieces between the maximal runs of white space. The empty
  string gives one empty piece, and a run at either end gives an empty piece there.
\<close>

function splitWs :: "string \<Rightarrow> string list" where
  "splitWs s =
     (let tok = takeWhile (\<lambda>c. \<not> isSpace c) s;
          rest = dropWhile (\<lambda>c. \<not> isSpace c) s
      in if rest = [] then [tok] else tok # splitWs (dropWhile isSpace rest))"
  by pat_completeness auto
termination
proof (relation "measure length")
  show "wf (measure length)" by simp
next
  fix s :: string and tok rest
  assume r: "rest = dropWhile (\<lambda>c. \<not> isSpace c) s" and ne: "rest \<noteq> []"
  from ne r have sp: "isSpace (hd rest)"
    using hd_dropWhile [of "\<lambda>c. \<not> isSpace c" s] by auto
  from ne obtain c cs where rc: "rest = c # cs" by (cases rest) auto
  with sp have "dropWhile isSpace rest = dropWhile isSpace cs" by simp
  then have "length (dropWhile isSpace rest) \<le> length cs"
    by (simp add: length_dropWhile_le)
  with rc have "length (dropWhile isSpace rest) < length rest" by simp
  moreover have "length rest \<le> length s"
    using r by (simp add: length_dropWhile_le)
  ultimately show "(dropWhile isSpace rest, s) \<in> measure length" by simp
qed

text \<open>\<open>s.includes(sub)\<close> on strings: \<open>sub\<close> occurs in \<open>s\<close> as a contiguous run.\<close>

fun strIncludes :: "string \<Rightarrow> string \<Rightarrow> bool" where
  "strIncludes [] sub = (sub = [])"
| "strIncludes (c # cs) sub = (prefix sub (c # cs) \<or> strIncludes cs sub)"

section \<open>Records of the store\<close>

datatype HelpRequestStatus = PENDING | RESOLVED | TIMEOUT

datatype KnowledgeSource = initial | learned

text \<open>
  Time stamps are the milliseconds since the epoch that \<open>toISOString\<close> prints and
  \<open>new Date\<close> reads back. An optional field is an \<open>option\<close>; a time stamp that is
  present is a non-empty string in the source, hence truthy.
\<close>

record HelpRequest =
  hr_id :: string
  hr_customerPhone :: string
  hr_customerName :: "string option"
  hr_question :: string
  hr_context :: "string option"
  hr_status :: HelpRequestStatus
  hr_createdAt :: int
  hr_resolvedAt :: "int option"
  hr_supervisorAnswer :: "string option"
  hr_timeoutAt :: int

record KnowledgeEntry =
  kb_id :: string
  kb_question :: string
  kb_answer :: string
  kb_category :: "string option"
  kb_createdAt :: int
  kb_updatedAt :: int
  kb_source :: KnowledgeSource

section \<open>The knowledge resolver: \<open>searchKnowledge\<close>\<close>

definition stopWords :: "string list" where
  "stopWords = [''the'', ''are'', ''your'', ''what'', ''where'', ''how'', ''can'', ''do'',
     ''does'', ''is'', ''at'', ''to'', ''of'', ''glamour'', ''salon'']"

definition queryWords :: "string \<Rightarrow> string list" where
  "queryWords normalizedQuery =
     filter (\<lambda>w. length w > 3 \<and> w \<notin> set stopWords) (splitWs normalizedQuery)"

definition synonymTable :: "(string \<times> string list) list" where
  "synonymTable =
    [(''price'', [''cost'', ''pricing'', ''fee'', ''charge'', ''rate'']),
     (''cost'', [''price'', ''pricing'', ''fee'', ''charge'', ''rate'']),
     (''pricing'', [''price'', ''cost'', ''fee'', ''charge'', ''rate'']),
     (''color'', [''coloring'', ''colour'', ''colouring'']),
     (''coloring'', [''color'', ''colour'', ''colouring'']),
     (''hair'', [''haircut'', ''hairstyle'', ''haircutting'']),
     (''appointment'', [''booking'', ''reservation'', ''schedule'']),
     (''booking'', [''appointment'', ''reservation'', ''schedule'']),
     (''hours'', [''time'', ''schedule'', ''open'', ''closed'']),
     (''location'', [''address'', ''where'', ''find'']),
     (''services'', [''service'', ''treatments'', ''offerings''])]"

text \<open>
  \<open>synonyms[word]\<close> reads a property of an object literal, so a word that is no key of
  the table still finds what the object inherits from \<open>Object.prototype\<close>. Words are
  lower case here, and the inherited names in lower case are \<open>constructor\<close> (a function)
  and \<open>__proto__\<close> (an object): both are truthy and neither has a \<open>forEach\<close>.
\<close>

datatype synonymLookup = OwnList "string list" | Inherited | Undefined

definition inheritedNames :: "string list" where
  "inheritedNames = [''constructor'', ''__proto__'']"

definition synonyms :: "string \<Rightarrow> synonymLookup" where
  "synonyms word =
     (case map_of synonymTable word of
        Some syns \<Rightarrow> OwnList syns
      | None \<Rightarrow> if word \<in> set inheritedNames then Inherited else Undefined)"

datatype error = TypeError

text \<open>A JavaScript \<open>Set\<close> of strings keeps insertion order and holds no element twice.\<close>

definition setAdd :: "string list \<Rightarrow> string \<Rightarrow> string list" where
  "setAdd s w = (if w \<in> set s then s else s @ [w])"

definition newSet :: "string list \<Rightarrow> string list" where
  "newSet ws = foldl setAdd [] ws"

text \<open>
  The \<open>forEach\<close> over the query words that adds the synonyms. Calling \<open>forEach\<close> on an
  inherited property raises a \<open>TypeError\<close>, which ends the search.
\<close>

fun addSynonyms :: "string list \<Rightarrow> string list \<Rightarrow> error + string list" where
  "addSynonyms acc [] = Inr acc"
| "addSynonyms acc (word # ws) =
     (case synonyms word of
        Undefined \<Rightarrow> addSynonyms acc ws
      | OwnList syns \<Rightarrow> addSynonyms (foldl setAdd acc syns) ws
      | Inherited \<Rightarrow> Inl TypeError)"

definition expandedQueryWords :: "string list \<Rightarrow> error + string list" where
  "expandedQueryWords qws = addSynonyms (newSet qws) qws"

definition questionWords :: "string \<Rightarrow> string list" where
  "questionWords normalizedQuestion = filter (\<lambda>w. length w > 3) (splitWs normalizedQuestion)"

definition matchCount :: "string list \<Rightarrow> string list \<Rightarrow> nat" where
  "matchCount expanded qs = length (filter (\<lambda>word. word \<in> set qs) expanded)"

definition partialMatches :: "string list \<Rightarrow> string list \<Rightarrow> nat" where
  "partialMatches expanded qs =
     length (filter (\<lambda>queryWord. \<exists>questionWord \<in> set qs.
        strIncludes questionWord queryWord \<or> strIncludes queryWord questionWord) expanded)"

definition keywordScore :: "string list \<Rightarrow> KnowledgeEntry \<Rightarrow> int" where
  "keywordScore expanded entry =
     (let qs = questionWords (trim (toLowerCase (kb_question entry)))
      in int (matchCount expanded qs) * 20 + int (partialMatches expanded qs) * 5)"

definition substringScore :: "string \<Rightarrow> KnowledgeEntry \<Rightarrow> int" where
  "substringScore normalizedQuery entry =
     (let normalizedQuestion = trim (toLowerCase (kb_question entry))
      in if strIncludes normalizedQuestion normalizedQuery
            \<or> strIncludes normalizedQuery normalizedQuestion then 100 else 0)"

definition categoryScore :: "string list \<Rightarrow> KnowledgeEntry \<Rightarrow> int" where
  "categoryScore expanded entry =
     (let category = (case kb_category entry of Some c \<Rightarrow> toLowerCase c | None \<Rightarrow> [])
      in if category \<noteq> [] \<and> (\<exists>word \<in> set expanded. strIncludes category word)
         then 50 else 0)"

definition learnedBonus :: "KnowledgeEntry \<Rightarrow> int" where
  "learnedBonus entry = (if kb_source entry = learned then 10 else 0)"

definition score :: "string \<Rightarrow> string list \<Rightarrow> KnowledgeEntry \<Rightarrow> int" where
  "score normalizedQuery expanded entry =
     substringScore normalizedQuery entry + categoryScore expanded entry
       + keywordScore expanded entry + learnedBonus entry"

text \<open>
  The scored entries with a positive score, sorted by descending score. \<open>Array.sort\<close>
  is stable, and so is \<open>sort_key\<close>.
\<close>

definition scoredEntries :: "string \<Rightarrow> string list \<Rightarrow> KnowledgeEntry list
    \<Rightarrow> (KnowledgeEntry \<times> int) list" where
  "scoredEntries normalizedQuery expanded knowledge =
     sort_key (\<lambda>p. - snd p)
       (filter (\<lambda>p. snd p > 0)
          (map (\<lambda>entry. (entry, score normalizedQuery expanded entry)) knowledge))"

definition searchKnowledge :: "KnowledgeEntry list \<Rightarrow> string \<Rightarrow> error + KnowledgeEntry option" where
  "searchKnowledge knowledge query =
     (let normalizedQuery = trim (toLowerCase query) in
      case expandedQueryWords (queryWords normalizedQuery) of
        Inl e \<Rightarrow> Inl e
      | Inr expanded \<Rightarrow>
          (case scoredEntries normalizedQuery expanded knowledge of
             [] \<Rightarrow> Inr None
           | p # _ \<Rightarrow> Inr (Some (fst p))))"

section \<open>The record store: help requests and knowledge\<close>

text \<open>
  A collection is the list of records its JSON file holds, in file order. Reading gives
  the list and writing replaces it; the model follows the runs in which both succeed.
  Generated ids and clock readings come from the environment and are parameters.
\<close>

record NewHelpRequest =
  nr_customerPhone :: string
  nr_customerName :: "string option"
  nr_question :: string
  nr_context :: "string option"
  nr_status :: HelpRequestStatus
  nr_resolvedAt :: "int option"
  nr_supervisorAnswer :: "string option"

text \<open>
  \<open>createHelpRequest\<close> reads the clock once for \<open>createdAt\<close> (\<open>new Date()\<close>) and once
  more for \<open>timeoutAt\<close> (\<open>Date.now() + 60 * 60 * 1000\<close>). The id, built from an earlier
  clock reading and a random suffix, is the parameter \<open>newId\<close>.
\<close>

definition createHelpRequest :: "string \<Rightarrow> int \<Rightarrow> int \<Rightarrow> NewHelpRequest \<Rightarrow> HelpRequest list
    \<Rightarrow> HelpRequest \<times> HelpRequest list" where
  "createHelpRequest newId nowCreated nowTimeout request requests =
     (let newRequest =
        \<lparr>hr_id = newId,
         hr_customerPhone = nr_customerPhone request,
         hr_customerName = nr_customerName request,
         hr_question = nr_question request,
         hr_context = nr_context request,
         hr_status = nr_status request,
         hr_createdAt = nowCreated,
         hr_resolvedAt = nr_resolvedAt request,
         hr_supervisorAnswer = nr_supervisorAnswer request,
         hr_timeoutAt = nowTimeout + 60 * 60 * 1000\<rparr>
      in (newRequest, requests @ [newRequest]))"

text \<open>
  \<open>Partial<HelpRequest>\<close>: \<open>None\<close> is a field the object does not name. A field that is
  optional in \<open>HelpRequest\<close> can be named with the value \<open>undefined\<close> (\<open>Some None\<close>).
\<close>

record HelpRequestUpdates =
  u_id :: "string option"
  u_customerPhone :: "string option"
  u_customerName :: "string option option"
  u_question :: "string option"
  u_context :: "string option option"
  u_status :: "HelpRequestStatus option"
  u_createdAt :: "int option"
  u_resolvedAt :: "int option option"
  u_supervisorAnswer :: "string option option"
  u_timeoutAt :: "int option"

definition noUpdates :: HelpRequestUpdates where
  "noUpdates =
     \<lparr>u_id = None, u_customerPhone = None, u_customerName = None, u_question = None,
      u_context = None, u_status = None, u_createdAt = None, u_resolvedAt = None,
      u_supervisorAnswer = None, u_timeoutAt = None\<rparr>"

definition override :: "'a \<Rightarrow> 'a option \<Rightarrow> 'a" where
  "override old new = (case new of None \<Rightarrow> old | Some v \<Rightarrow> v)"

text \<open>The spread \<open>{ ...requests[index], ...updates }\<close>.\<close>

definition spread :: "HelpRequest \<Rightarrow> HelpRequestUpdates \<Rightarrow> HelpRequest" where
  "spread r updates =
     \<lparr>hr_id = override (hr_id r) (u_id updates),
      hr_customerPhone = override (hr_customerPhone r) (u_customerPhone updates),
      hr_customerName = override (hr_customerName r) (u_customerName updates),
      hr_question = override (hr_question r) (u_question updates),
      hr_context = override (hr_context r) (u_context updates),
      hr_status = override (hr_status r) (u_status updates),
      hr_createdAt = override (hr_createdAt r) (u_createdAt updates),
      hr_resolvedAt = override (hr_resolvedAt r) (u_resolvedAt updates),
      hr_supervisorAnswer = override (hr_supervisorAnswer r) (u_supervisorAnswer updates),
      hr_timeoutAt = override (hr_timeoutAt r) (u_timeoutAt updates)\<rparr>"

fun findIndex :: "('a \<Rightarrow> bool) \<Rightarrow> 'a list \<Rightarrow> nat option" where
  "findIndex P [] = None"
| "findIndex P (x # xs) = (if P x then Some 0 else map_option Suc (findIndex P xs))"

definition updateHelpRequest :: "string \<Rightarrow> HelpRequestUpdates \<Rightarrow> HelpRequest list
    \<Rightarrow> HelpRequest option \<times> HelpRequest list" where
  "updateHelpRequest rid updates requests =
     (case findIndex (\<lambda>r. hr_id r = rid) requests of
        None \<Rightarrow> (None, requests)
      | Some index \<Rightarrow>
          (let updated = spread (requests ! index) updates
           in (Some updated, requests[index := updated])))"

definition expired :: "int \<Rightarrow> HelpRequest \<Rightarrow> bool" where
  "expired now request = (hr_status request = PENDING \<and> hr_timeoutAt request < now)"

definition sweep :: "int \<Rightarrow> HelpRequest list \<Rightarrow> HelpRequest list" where
  "sweep now requests =
     map (\<lambda>request. if expired now request then request\<lparr>hr_status := TIMEOUT\<rparr> else request)
       requests"

text \<open>
  \<open>getPendingHelpRequests\<close> gives the pending requests left after the sweep, and the
  collection as stored afterwards: written back only when the sweep changed a request.
\<close>

definition getPendingHelpRequests :: "int \<Rightarrow> HelpRequest list
    \<Rightarrow> HelpRequest list \<times> HelpRequest list" where
  "getPendingHelpRequests now requests =
     (let swept = sweep now requests;
          hasChanges = list_ex (expired now) requests
      in (filter (\<lambda>r. hr_status r = PENDING) swept,
          if hasChanges then swept else requests))"

record NewKnowledge =
  nk_question :: string
  nk_answer :: string
  nk_category :: "string option"
  nk_source :: KnowledgeSource

definition addKnowledge :: "string \<Rightarrow> int \<Rightarrow> int \<Rightarrow> NewKnowledge \<Rightarrow> KnowledgeEntry list
    \<Rightarrow> KnowledgeEntry \<times> KnowledgeEntry list" where
  "addKnowledge newId nowCreated nowUpdated entry knowledge =
     (let newEntry =
        \<lparr>kb_id = newId,
         kb_question = nk_question entry,
         kb_answer = nk_answer entry,
         kb_category = nk_category entry,
         kb_createdAt = nowCreated,
         kb_updatedAt = nowUpdated,
         kb_source = nk_source entry\<rparr>
      in (newEntry, knowledge @ [newEntry]))"

section \<open>The session manager\<close>

text \<open>
  The directory maps a customer phone to its live session. The session handle belongs to
  the transport; \<open>say handle message\<close> tells whether the push \<open>session.say(message)\<close>
  returns (\<open>True\<close>) or throws (\<open>False\<close>). It is a parameter of every operation that
  may push, and the push itself does not touch the directory.
\<close>

record 'h ActiveSession =
  as_customerPhone :: string
  as_session :: 'h
  as_roomName :: string
  as_connectedAt :: int

type_synonym 'h directory = "string \<rightharpoonup> 'h ActiveSession"


definition unregisterSession :: "string \<Rightarrow> 'h directory \<Rightarrow> 'h directory" where
  "unregisterSession customerPhone activeSessions = activeSessions(customerPhone := None)"

definition sendMessageToCustomer :: "('h \<Rightarrow> string \<Rightarrow> bool) \<Rightarrow> string \<Rightarrow> string
    \<Rightarrow> 'h directory \<Rightarrow> bool \<times> 'h directory" where
  "sendMessageToCustomer say customerPhone message activeSessions =
     (case activeSessions customerPhone of
        None \<Rightarrow> (False, activeSessions)
      | Some activeSession \<Rightarrow>
          if say (as_session activeSession) message then (True, activeSessions)
          else (False, unregisterSession customerPhone activeSessions))"

section \<open>Notification, polling and escalation\<close>

text \<open>A string that may be \<open>undefined\<close> is truthy when it is present and not empty.\<close>

fun truthy :: "string option \<Rightarrow> bool" where
  "truthy None = False"
| "truthy (Some s) = (s \<noteq> [])"

definition followUpMessage :: "string \<Rightarrow> string" where
  "followUpMessage answer = ''Hi! I got an answer to your question: '' @ answer"

text \<open>
  The notification service is \<open>ConsoleNotificationService\<close>, the one the factory returns
  by default and the only one that polls. Its \<open>notifyCustomer\<close> sends through the session
  manager and prints the outcome; the model keeps the attempt and its outcome in a log.
\<close>

record notification =
  n_customerPhone :: string
  n_message :: string
  n_delivered :: bool

record 'h system =
  sys_requests :: "HelpRequest list"
  sys_knowledge :: "KnowledgeEntry list"
  sys_sessions :: "'h directory"
  sys_log :: "notification list"

definition notifyCustomer :: "('h \<Rightarrow> string \<Rightarrow> bool) \<Rightarrow> string \<Rightarrow> string
    \<Rightarrow> 'h system \<Rightarrow> 'h system" where
  "notifyCustomer say customerPhone message st =
     (let (sent, sessions) = sendMessageToCustomer say customerPhone message (sys_sessions st)
      in st\<lparr>sys_sessions := sessions,
            sys_log := sys_log st @
              [\<lparr>n_customerPhone = customerPhone, n_message = message, n_delivered = sent\<rparr>]\<rparr>)"

definition answered :: "HelpRequest \<Rightarrow> bool" where
  "answered request = (truthy (hr_supervisorAnswer request) \<and> hr_resolvedAt request \<noteq> None)"

text \<open>
  The loop of \<open>checkForSupervisorResponses\<close> over the pending requests it read: notify,
  then mark the request \<open>RESOLVED\<close> in the stored collection.
\<close>

fun pollRequests :: "('h \<Rightarrow> string \<Rightarrow> bool) \<Rightarrow> HelpRequest list \<Rightarrow> 'h system \<Rightarrow> 'h system" where
  "pollRequests say [] st = st"
| "pollRequests say (request # rest) st =
     (if answered request then
        (let st1 = notifyCustomer say (hr_customerPhone request)
                     (followUpMessage (the (hr_supervisorAnswer request))) st;
             st2 = st1\<lparr>sys_requests :=
                     snd (updateHelpRequest (hr_id request) (noUpdates\<lparr>u_status := Some RESOLVED\<rparr>)
                            (sys_requests st1))\<rparr>
         in pollRequests say rest st2)
      else pollRequests say rest st)"

definition checkForSupervisorResponses :: "('h \<Rightarrow> string \<Rightarrow> bool) \<Rightarrow> int \<Rightarrow> 'h system \<Rightarrow> 'h system" where
  "checkForSupervisorResponses say now st =
     (let (pendingRequests, stored) = getPendingHelpRequests now (sys_requests st)
      in pollRequests say pendingRequests (st\<lparr>sys_requests := stored\<rparr>))"

record EscalationContext =
  ec_customerPhone :: string
  ec_customerName :: "string option"
  ec_question :: string
  ec_conversationContext :: "string option"

definition escalateToSupervisor :: "string \<Rightarrow> int \<Rightarrow> int \<Rightarrow> EscalationContext \<Rightarrow> HelpRequest list
    \<Rightarrow> string \<times> HelpRequest list" where
  "escalateToSupervisor newId nowCreated nowTimeout context requests =
     (let requestData =
        \<lparr>nr_customerPhone = ec_customerPhone context,
         nr_customerName =
           (if truthy (ec_customerName context) then ec_customerName context else None),
         nr_question = ec_question context,
         nr_context =
           (if truthy (ec_conversationContext context) then ec_conversationContext context
            else None),
         nr_status = PENDING,
         nr_resolvedAt = None,
         nr_supervisorAnswer = None\<rparr>;
          (helpRequest, requests') = createHelpRequest newId nowCreated nowTimeout requestData requests
      in (hr_id helpRequest, requests'))"

definition followUpWithCustomer :: "('h \<Rightarrow> string \<Rightarrow> bool) \<Rightarrow> string \<Rightarrow> string
    \<Rightarrow> 'h system \<Rightarrow> 'h system" where
  "followUpWithCustomer say customerPhone answer st =
     notifyCustomer say customerPhone (followUpMessage answer) st"

section \<open>The supervisor's endpoint \<open>POST /api/help-requests/:id/respond\<close>\<close>

datatype response = Status400 | Status404 | Success HelpRequest

text \<open>
  The environment of one call: the clock reading for \<open>resolvedAt\<close>, and the id and the
  two clock readings of the knowledge entry. The \<open>answer\<close> of the request body is a string
  or missing (\<open>None\<close>); the check \<open>!answer\<close> rejects a missing and an empty answer.
\<close>

record respondEnv =
  env_resolvedAt :: int
  env_kbId :: string
  env_kbCreatedAt :: int
  env_kbUpdatedAt :: int

definition respond :: "('h \<Rightarrow> string \<Rightarrow> bool) \<Rightarrow> respondEnv \<Rightarrow> string \<Rightarrow> string option
    \<Rightarrow> 'h system \<Rightarrow> response \<times> 'h system" where
  "respond say env rid answer st =
     (if \<not> truthy answer then (Status400, st)
      else
        (let a = the answer;
             (updatedRequest, requests') =
               updateHelpRequest rid
                 (noUpdates\<lparr>u_status := Some RESOLVED,
                            u_supervisorAnswer := Some (Some a),
                            u_resolvedAt := Some (Some (env_resolvedAt env))\<rparr>)
                 (sys_requests st);
             st1 = st\<lparr>sys_requests := requests'\<rparr>
         in case updatedRequest of
              None \<Rightarrow> (Status404, st1)
            | Some updated \<Rightarrow>
                (let (newEntry, knowledge') =
                       addKnowledge (env_kbId env) (env_kbCreatedAt env) (env_kbUpdatedAt env)
                         \<lparr>nk_question = hr_question updated, nk_answer = a,
                          nk_category = Some ''supervisor-learned'', nk_source = learned\<rparr>
                         (sys_knowledge st1);
                     st2 = st1\<lparr>sys_knowledge := knowledge'\<rparr>;
                     st3 = followUpWithCustomer say (hr_customerPhone updated) a st2
                 in (Success updated, st3))))"

section \<open>Observing one tick of the poller\<close>

text \<open>
  What a notification attempt sent and to whom, the follow-up a request calls for, the
  sweep of a single request, and the marking of the requests with given ids as resolved.
\<close>

definition followUpOf :: "HelpRequest \<Rightarrow> string \<times> string" where
  "followUpOf r = (hr_customerPhone r, followUpMessage (the (hr_supervisorAnswer r)))"

definition sent :: "notification \<Rightarrow> string \<times> string" where
  "sent n = (n_customerPhone n, n_message n)"

definition sweepOne :: "int \<Rightarrow> HelpRequest \<Rightarrow> HelpRequest" where
  "sweepOne now request =
     (if expired now request then request\<lparr>hr_status := TIMEOUT\<rparr> else request)"

definition markResolved :: "string set \<Rightarrow> HelpRequest list \<Rightarrow> HelpRequest list" where
  "markResolved ids requests =
     map (\<lambda>r. if hr_id r \<in> ids then r\<lparr>hr_status := RESOLVED\<rparr> else r) requests"

text \<open>
  Every request that carries an answer or a resolution time is stored as resolved.
\<close>

definition answersResolved :: "HelpRequest list \<Rightarrow> bool" where
  "answersResolved requests =
     list_all (\<lambda>r. hr_status r = RESOLVED
                  \<or> (hr_resolvedAt r = None \<and> hr_supervisorAnswer r = None)) requests"

section \<open>The keyword score in the words of the specification\<close>

text \<open>
  The keyword component as the specification describes it, for comparison with
  \<open>keywordScore\<close>: the question tokens are filtered like the query tokens (longer than
  three characters and no stop word), an exact match counts 20, and a token in a substring
  relation with a question token counts 5 unless it was counted as exact.
\<close>

definition specQuestionWords :: "string \<Rightarrow> string list" where
  "specQuestionWords normalizedQuestion =
     filter (\<lambda>w. length w > 3 \<and> w \<notin> set stopWords) (splitWs normalizedQuestion)"

definition specKeywordScore :: "string list \<Rightarrow> KnowledgeEntry \<Rightarrow> int" where
  "specKeywordScore expanded entry =
     (let qs = specQuestionWords (trim (toLowerCase (kb_question entry)))
      in 20 * int (length (filter (\<lambda>w. w \<in> set qs) expanded))
         + 5 * int (length (filter (\<lambda>w. w \<notin> set qs \<and> (\<exists>q \<in> set qs. sublist w q \<or> sublist q w))
                     expanded)))"

section \<open>Concrete stores and sessions\<close>

definition pendingRequest :: HelpRequest where
  "pendingRequest =
     \<lparr>hr_id = ''req_1'', hr_customerPhone = ''+1234567890'', hr_customerName = None,
      hr_question = ''Do you have parking?'', hr_context = None, hr_status = PENDING,
      hr_createdAt = 1000, hr_resolvedAt = None, hr_supervisorAnswer = None,
      hr_timeoutAt = 3601000\<rparr>"

definition timedOutRequest :: HelpRequest where
  "timedOutRequest =
     \<lparr>hr_id = ''req_2'', hr_customerPhone = ''+1987654321'', hr_customerName = None,
      hr_question = ''Do you allow pets?'', hr_context = None, hr_status = TIMEOUT,
      hr_createdAt = 0, hr_resolvedAt = None, hr_supervisorAnswer = None,
      hr_timeoutAt = 3600000\<rparr>"

definition exampleEnv :: respondEnv where
  "exampleEnv = \<lparr>env_resolvedAt = 5000, env_kbId = ''kb_6'', env_kbCreatedAt = 5001,
     env_kbUpdatedAt = 5002\<rparr>"

definition exampleSession :: "nat ActiveSession" where
  "exampleSession = \<lparr>as_customerPhone = ''+1234567890'', as_session = 1,
     as_roomName = ''room'', as_connectedAt = 500\<rparr>"

definition systemOf :: "HelpRequest list \<Rightarrow> nat directory \<Rightarrow> nat system" where
  "systemOf requests sessions =
     \<lparr>sys_requests = requests, sys_knowledge = [], sys_sessions = sessions, sys_log = []\<rparr>"

definition haircutEntry :: KnowledgeEntry where
  "haircutEntry =
     \<lparr>kb_id = ''kb_4'', kb_question = ''How much does a haircut cost?'',
      kb_answer = ''A standard haircut is $65. A haircut with a senior stylist is $85.'',
      kb_category = Some ''pricing'', kb_createdAt = 0, kb_updatedAt = 0,
      kb_source = initial\<rparr>"

definition locationEntry :: KnowledgeEntry where
  "locationEntry =
     \<lparr>kb_id = ''kb_2'', kb_question = ''Where are you located?'',
      kb_answer = ''We are located at 123 Beauty Street, San Francisco, CA 94102.'',
      kb_category = Some ''location'', kb_createdAt = 0, kb_updatedAt = 0,
      kb_source = initial\<rparr>"

definition parkingContext :: EscalationContext where
  "parkingContext = \<lparr>ec_customerPhone = ''+1234567890'', ec_customerName = None,
     ec_question = ''Do you have parking?'', ec_conversationContext = None\<rparr>"


section \<open>Properties of the store operations\<close>

lemma findIndex_None: "findIndex P xs = None \<longleftrightarrow> (\<forall>x \<in> set xs. \<not> P x)"
  by (induction xs) auto

lemma findIndex_Some:
  "findIndex P xs = Some i \<longleftrightarrow> (i < length xs \<and> P (xs ! i) \<and> (\<forall>j < i. \<not> P (xs ! j)))"
proof (induction xs arbitrary: i)
  case Nil
  then show ?case by simp
next
  case (Cons x xs)
  show ?case
  proof (cases "P x")
    case True
    then show ?thesis by (cases i) auto
  next
    case False
    show ?thesis
    proof (cases i)
      case 0
      with False show ?thesis by auto
    next
      case (Suc k)
      have "(\<forall>j<Suc k. \<not> P ((x # xs) ! j)) \<longleftrightarrow> (\<forall>j<k. \<not> P (xs ! j))"
        using False by (auto simp: less_Suc_eq_0_disj)
      with False Suc Cons.IH [of k] show ?thesis by auto
    qed
  qed
qed

lemma findIndex_in: "rid \<in> f ` set xs \<longleftrightarrow> (\<exists>i. findIndex (\<lambda>r. f r = rid) xs = Some i)"
proof -
  have "rid \<notin> f ` set xs \<longleftrightarrow> findIndex (\<lambda>r. f r = rid) xs = None"
    by (auto simp: findIndex_None)
  then show ?thesis by (cases "findIndex (\<lambda>r. f r = rid) xs") auto
qed

lemma override_None [simp]: "override old None = old"
  by (simp add: override_def)

lemma override_Some [simp]: "override old (Some v) = v"
  by (simp add: override_def)

lemma updateHelpRequest_present:
  "findIndex (\<lambda>r. hr_id r = rid) requests = Some i \<Longrightarrow>
     updateHelpRequest rid updates requests
       = (Some (spread (requests ! i) updates), requests[i := spread (requests ! i) updates])"
  by (simp add: updateHelpRequest_def Let_def)

lemma updateHelpRequest_absent:
  "findIndex (\<lambda>r. hr_id r = rid) requests = None \<Longrightarrow>
     updateHelpRequest rid updates requests = (None, requests)"
  by (simp add: updateHelpRequest_def)

lemma findIndex_find: "findIndex P xs = Some i \<Longrightarrow> find P xs = Some (xs ! i)"
  by (induction xs arbitrary: i) (auto split: if_splits)

lemma spread_resolve:
  "spread r (noUpdates\<lparr>u_status := Some RESOLVED, u_supervisorAnswer := Some (Some a),
                       u_resolvedAt := Some (Some t)\<rparr>)
     = r\<lparr>hr_status := RESOLVED, hr_resolvedAt := Some t, hr_supervisorAnswer := Some a\<rparr>"
  by (simp add: spread_def noUpdates_def)

lemma respond_400: "\<not> truthy answer \<Longrightarrow> respond say env rid answer st = (Status400, st)"
  by (simp add: respond_def)

lemma respond_404:
  assumes "truthy answer" and "findIndex (\<lambda>r. hr_id r = rid) (sys_requests st) = None"
  shows "respond say env rid answer st = (Status404, st)"
  using assms by (simp add: respond_def Let_def updateHelpRequest_absent)

lemma respond_200:
  assumes "truthy answer" and fi: "findIndex (\<lambda>r. hr_id r = rid) (sys_requests st) = Some i"
  shows "respond say env rid answer st =
     (let a = the answer;
          updated = (sys_requests st ! i)\<lparr>hr_status := RESOLVED,
                      hr_resolvedAt := Some (env_resolvedAt env), hr_supervisorAnswer := Some a\<rparr>;
          newEntry = \<lparr>kb_id = env_kbId env, kb_question = hr_question (sys_requests st ! i),
                      kb_answer = a, kb_category = Some ''supervisor-learned'',
                      kb_createdAt = env_kbCreatedAt env, kb_updatedAt = env_kbUpdatedAt env,
                      kb_source = learned\<rparr>
      in (Success updated,
          followUpWithCustomer say (hr_customerPhone (sys_requests st ! i)) a
            (st\<lparr>sys_requests := (sys_requests st)[i := updated],
                sys_knowledge := sys_knowledge st @ [newEntry]\<rparr>)))"
  using assms
  by (simp add: respond_def Let_def updateHelpRequest_present [OF fi] spread_resolve
      addKnowledge_def)

lemma followUp_requests [simp]:
  "sys_requests (followUpWithCustomer say p a st) = sys_requests st"
  by (simp add: followUpWithCustomer_def notifyCustomer_def split: prod.splits)

lemma followUp_knowledge [simp]:
  "sys_knowledge (followUpWithCustomer say p a st) = sys_knowledge st"
  by (simp add: followUpWithCustomer_def notifyCustomer_def split: prod.splits)

text \<open>
  C10: \<open>updateHelpRequest\<close> changes only the first record carrying the id. When the id
  is present at index \<open>i\<close>, the stored collection is the old one with position \<open>i\<close>
  replaced by the spread of the old record and the updates, so its length and order are
  kept and every other position is unchanged, and each field the updates do not name keeps
  its value. When the id is absent, the result is null and the collection is unchanged.
\<close>

theorem updateHelpRequest_frame:
  "(rid \<in> hr_id ` set requests \<longrightarrow>
      (\<exists>i. i < length requests \<and> hr_id (requests ! i) = rid
         \<and> (\<forall>j<i. hr_id (requests ! j) \<noteq> rid)
         \<and> updateHelpRequest rid updates requests
             = (Some (spread (requests ! i) updates), requests[i := spread (requests ! i) updates])
         \<and> length (snd (updateHelpRequest rid updates requests)) = length requests
         \<and> (\<forall>j. j \<noteq> i \<longrightarrow> snd (updateHelpRequest rid updates requests) ! j = requests ! j)
         \<and> (u_id updates = None \<longrightarrow> hr_id (spread (requests ! i) updates) = hr_id (requests ! i))
         \<and> (u_customerPhone updates = None \<longrightarrow>
               hr_customerPhone (spread (requests ! i) updates) = hr_customerPhone (requests ! i))
         \<and> (u_customerName updates = None \<longrightarrow>
               hr_customerName (spread (requests ! i) updates) = hr_customerName (requests ! i))
         \<and> (u_question updates = None \<longrightarrow>
               hr_question (spread (requests ! i) updates) = hr_question (requests ! i))
         \<and> (u_context updates = None \<longrightarrow>
               hr_context (spread (requests ! i) updates) = hr_context (requests ! i))
         \<and> (u_status updates = None \<longrightarrow>
               hr_status (spread (requests ! i) updates) = hr_status (requests ! i))
         \<and> (u_createdAt updates = None \<longrightarrow>
               hr_createdAt (spread (requests ! i) updates) = hr_createdAt (requests ! i))
         \<and> (u_resolvedAt updates = None \<longrightarrow>
               hr_resolvedAt (spread (requests ! i) updates) = hr_resolvedAt (requests ! i))
         \<and> (u_supervisorAnswer updates = None \<longrightarrow>
               hr_supervisorAnswer (spread (requests ! i) updates)
                 = hr_supervisorAnswer (requests ! i))
         \<and> (u_timeoutAt updates = None \<longrightarrow>
               hr_timeoutAt (spread (requests ! i) updates) = hr_timeoutAt (requests ! i))))
   \<and> (rid \<notin> hr_id ` set requests \<longrightarrow>
        updateHelpRequest rid updates requests = (None, requests))"
proof (intro conjI impI)
  assume "rid \<in> hr_id ` set requests"
  then obtain i where fi: "findIndex (\<lambda>r. hr_id r = rid) requests = Some i"
    by (auto simp: findIndex_in)
  then have i: "i < length requests" "hr_id (requests ! i) = rid"
    "\<forall>j<i. hr_id (requests ! j) \<noteq> rid"
    by (simp_all add: findIndex_Some)
  have u: "updateHelpRequest rid updates requests
             = (Some (spread (requests ! i) updates), requests[i := spread (requests ! i) updates])"
    using fi by (simp add: updateHelpRequest_def Let_def)
  have fr: "\<forall>j. j \<noteq> i \<longrightarrow> snd (updateHelpRequest rid updates requests) ! j = requests ! j"
    by (simp add: u)
  have len: "length (snd (updateHelpRequest rid updates requests)) = length requests"
    by (simp add: u)
  show "\<exists>i. i < length requests \<and> hr_id (requests ! i) = rid
         \<and> (\<forall>j<i. hr_id (requests ! j) \<noteq> rid)
         \<and> updateHelpRequest rid updates requests
             = (Some (spread (requests ! i) updates), requests[i := spread (requests ! i) updates])
         \<and> length (snd (updateHelpRequest rid updates requests)) = length requests
         \<and> (\<forall>j. j \<noteq> i \<longrightarrow> snd (updateHelpRequest rid updates requests) ! j = requests ! j)
         \<and> (u_id updates = None \<longrightarrow> hr_id (spread (requests ! i) updates) = hr_id (requests ! i))
         \<and> (u_customerPhone updates = None \<longrightarrow>
               hr_customerPhone (spread (requests ! i) updates) = hr_customerPhone (requests ! i))
         \<and> (u_customerName updates = None \<longrightarrow>
               hr_customerName (spread (requests ! i) updates) = hr_customerName (requests ! i))
         \<and> (u_question updates = None \<longrightarrow>
               hr_question (spread (requests ! i) updates) = hr_question (requests ! i))
         \<and> (u_context updates = None \<longrightarrow>
               hr_context (spread (requests ! i) updates) = hr_context (requests ! i))
         \<and> (u_status updates = None \<longrightarrow>
               hr_status (spread (requests ! i) updates) = hr_status (requests ! i))
         \<and> (u_createdAt updates = None \<longrightarrow>
               hr_createdAt (spread (requests ! i) updates) = hr_createdAt (requests ! i))
         \<and> (u_resolvedAt updates = None \<longrightarrow>
               hr_resolvedAt (spread (requests ! i) updates) = hr_resolvedAt (requests ! i))
         \<and> (u_supervisorAnswer updates = None \<longrightarrow>
               hr_supervisorAnswer (spread (requests ! i) updates)
                 = hr_supervisorAnswer (requests ! i))
         \<and> (u_timeoutAt updates = None \<longrightarrow>
               hr_timeoutAt (spread (requests ! i) updates) = hr_timeoutAt (requests ! i))"
    apply (rule exI [of _ i])
    using i u fr len by (simp add: spread_def)
next
  assume "rid \<notin> hr_id ` set requests"
  then have "findIndex (\<lambda>r. hr_id r = rid) requests = None"
    by (auto simp: findIndex_None)
  then show "updateHelpRequest rid updates requests = (None, requests)"
    by (simp add: updateHelpRequest_def)
qed

theorem updateHelpRequest_frame_witness:
  "''req_2'' \<in> hr_id ` set [pendingRequest, timedOutRequest]
   \<and> updateHelpRequest ''req_2'' (noUpdates\<lparr>u_status := Some RESOLVED\<rparr>)
        [pendingRequest, timedOutRequest]
       = (Some (timedOutRequest\<lparr>hr_status := RESOLVED\<rparr>),
          [pendingRequest, timedOutRequest\<lparr>hr_status := RESOLVED\<rparr>])
   \<and> ''req_9'' \<notin> hr_id ` set [pendingRequest, timedOutRequest]
   \<and> updateHelpRequest ''req_9'' (noUpdates\<lparr>u_status := Some RESOLVED\<rparr>)
        [pendingRequest, timedOutRequest]
       = (None, [pendingRequest, timedOutRequest])"
  using updateHelpRequest_frame [of "''req_2''" "[pendingRequest, timedOutRequest]"
      "noUpdates\<lparr>u_status := Some RESOLVED\<rparr>"]
    updateHelpRequest_frame [of "''req_9''" "[pendingRequest, timedOutRequest]"
      "noUpdates\<lparr>u_status := Some RESOLVED\<rparr>"]
  by (simp add: updateHelpRequest_def pendingRequest_def timedOutRequest_def noUpdates_def
      spread_def Let_def)

lemma sweep_status:
  "map hr_status (sweep now requests)
     = map (\<lambda>r. if expired now r then TIMEOUT else hr_status r) requests"
  by (simp add: sweep_def)

lemma sweep_terminal:
  assumes "i < length requests" and "hr_status (requests ! i) \<noteq> PENDING"
  shows "sweep now requests ! i = requests ! i"
  using assms by (simp add: sweep_def expired_def)

text \<open>
  C6: \<open>escalateToSupervisor\<close> followed by a pending-list read. The stored request has
  \<open>timeoutAt\<close> one hour after the second clock reading, which is at least one hour after
  \<open>createdAt\<close> when the clock does not run backwards between the two readings, and
  exactly one hour after it when the two readings agree. A read of the pending list before
  one hour has passed since \<open>createdAt\<close> then returns the request, with status pending.
\<close>

theorem escalate_then_pending:
  assumes "nowCreated \<le> nowTimeout" and "now < nowCreated + 60 * 60 * 1000"
  shows "\<exists>r. escalateToSupervisor newId nowCreated nowTimeout context requests
                = (newId, requests @ [r])
           \<and> hr_id r = newId \<and> hr_status r = PENDING
           \<and> hr_createdAt r = nowCreated
           \<and> hr_timeoutAt r = nowTimeout + 60 * 60 * 1000
           \<and> hr_createdAt r + 60 * 60 * 1000 \<le> hr_timeoutAt r
           \<and> (hr_timeoutAt r = hr_createdAt r + 60 * 60 * 1000) = (nowTimeout = nowCreated)
           \<and> r \<in> set (fst (getPendingHelpRequests now (requests @ [r])))
           \<and> r \<in> set (snd (getPendingHelpRequests now (requests @ [r])))"
  using assms
  by (auto simp: escalateToSupervisor_def createHelpRequest_def Let_def
      getPendingHelpRequests_def sweep_def expired_def)

theorem escalate_then_pending_witness:
  "(1000::int) \<le> 1001 \<and> (2000::int) < 1000 + 60 * 60 * 1000
   \<and> escalateToSupervisor ''req_1'' 1000 1001 parkingContext []
       = (''req_1'', [pendingRequest\<lparr>hr_timeoutAt := 3601001\<rparr>])
   \<and> fst (getPendingHelpRequests 2000 [pendingRequest\<lparr>hr_timeoutAt := 3601001\<rparr>])
       = [pendingRequest\<lparr>hr_timeoutAt := 3601001\<rparr>]"
  using escalate_then_pending [of 1000 1001 2000 "''req_1''" parkingContext "[]"]
  by (simp add: escalateToSupervisor_def createHelpRequest_def Let_def parkingContext_def
      pendingRequest_def getPendingHelpRequests_def sweep_def expired_def)

text \<open>
  The request created when the clock advances by one millisecond between the two
  readings: \<open>timeoutAt\<close> is not \<open>createdAt\<close> plus one hour.
\<close>

theorem createdAt_timeoutAt_counterexample:
  "hr_timeoutAt (last (snd (escalateToSupervisor ''req_1'' 1000 1001 parkingContext [])))
     \<noteq> hr_createdAt (last (snd (escalateToSupervisor ''req_1'' 1000 1001 parkingContext [])))
         + 60 * 60 * 1000"
  by (simp add: escalateToSupervisor_def createHelpRequest_def Let_def parkingContext_def)

section \<open>Properties of the session manager\<close>

text \<open>
  C8: \<open>sendMessageToCustomer\<close>. Without a session for the phone it returns false and
  leaves the directory as it is. With a session whose push fails it returns false and the
  directory no longer has an entry for the phone (every other entry is kept). With a
  session whose push succeeds it returns true and the entry is still in the directory.
\<close>

theorem sendMessageToCustomer_outcomes:
  "(activeSessions customerPhone = None \<longrightarrow>
      sendMessageToCustomer say customerPhone message activeSessions = (False, activeSessions))
   \<and> (\<forall>s. activeSessions customerPhone = Some s \<and> \<not> say (as_session s) message \<longrightarrow>
        fst (sendMessageToCustomer say customerPhone message activeSessions) = False
        \<and> snd (sendMessageToCustomer say customerPhone message activeSessions) customerPhone = None
        \<and> (\<forall>p. p \<noteq> customerPhone \<longrightarrow>
              snd (sendMessageToCustomer say customerPhone message activeSessions) p = activeSessions p))
   \<and> (\<forall>s. activeSessions customerPhone = Some s \<and> say (as_session s) message \<longrightarrow>
        sendMessageToCustomer say customerPhone message activeSessions = (True, activeSessions)
        \<and> snd (sendMessageToCustomer say customerPhone message activeSessions) customerPhone = Some s)"
  by (simp add: sendMessageToCustomer_def unregisterSession_def)

theorem sendMessageToCustomer_outcomes_witness:
  "(Map.empty :: nat directory) ''+1234567890'' = None
   \<and> sendMessageToCustomer (\<lambda>h m. True) ''+1234567890'' ''hello'' (Map.empty :: nat directory)
       = (False, Map.empty)
   \<and> [''+1234567890'' \<mapsto> exampleSession] ''+1234567890'' = Some exampleSession
   \<and> \<not> (\<lambda>h m. False) (as_session exampleSession) ''hello''
   \<and> fst (sendMessageToCustomer (\<lambda>h m. False) ''+1234567890'' ''hello''
        [''+1234567890'' \<mapsto> exampleSession]) = False
   \<and> snd (sendMessageToCustomer (\<lambda>h m. False) ''+1234567890'' ''hello''
        [''+1234567890'' \<mapsto> exampleSession]) ''+1234567890'' = None
   \<and> (\<lambda>h m. True) (as_session exampleSession) ''hello''
   \<and> sendMessageToCustomer (\<lambda>h m. True) ''+1234567890'' ''hello''
        [''+1234567890'' \<mapsto> exampleSession] = (True, [''+1234567890'' \<mapsto> exampleSession])"
  using sendMessageToCustomer_outcomes [of "Map.empty :: nat directory" "''+1234567890''"
      "\<lambda>h m. True" "''hello''"]
    sendMessageToCustomer_outcomes [of "[''+1234567890'' \<mapsto> exampleSession]" "''+1234567890''"
      "\<lambda>h m. False" "''hello''"]
    sendMessageToCustomer_outcomes [of "[''+1234567890'' \<mapsto> exampleSession]" "''+1234567890''"
      "\<lambda>h m. True" "''hello''"]
  by simp

section \<open>Properties of the supervisor's endpoint\<close>

text \<open>
  C9: the respond endpoint. A missing (or empty) answer gives status 400 and the state is
  unchanged. With an answer and an id that no request carries, it gives status 404 and
  the state, so the requests and the knowledge, is unchanged. With an answer and a known
  id it gives success with the updated request: the first request with that id, now
  resolved, carrying the answer and the resolution time, and stored at the same position.
\<close>

theorem respond_outcomes:
  "(\<not> truthy answer \<longrightarrow> respond say env rid answer st = (Status400, st))
   \<and> (truthy answer \<and> rid \<notin> hr_id ` set (sys_requests st) \<longrightarrow>
        respond say env rid answer st = (Status404, st))
   \<and> (truthy answer \<and> rid \<in> hr_id ` set (sys_requests st) \<longrightarrow>
        (\<exists>i updated. findIndex (\<lambda>r. hr_id r = rid) (sys_requests st) = Some i
           \<and> updated = (sys_requests st ! i)\<lparr>hr_status := RESOLVED,
                 hr_resolvedAt := Some (env_resolvedAt env), hr_supervisorAnswer := answer\<rparr>
           \<and> fst (respond say env rid answer st) = Success updated
           \<and> sys_requests (snd (respond say env rid answer st))
                = (sys_requests st)[i := updated]))"
proof (intro conjI impI)
  assume "\<not> truthy answer"
  then show "respond say env rid answer st = (Status400, st)" by (rule respond_400)
next
  assume a: "truthy answer \<and> rid \<notin> hr_id ` set (sys_requests st)"
  then have "findIndex (\<lambda>r. hr_id r = rid) (sys_requests st) = None"
    by (auto simp: findIndex_None)
  with a show "respond say env rid answer st = (Status404, st)" by (simp add: respond_404)
next
  assume a: "truthy answer \<and> rid \<in> hr_id ` set (sys_requests st)"
  then obtain i where fi: "findIndex (\<lambda>r. hr_id r = rid) (sys_requests st) = Some i"
    by (auto simp: findIndex_in)
  from a obtain s where s: "answer = Some s" by (cases answer) auto
  show "\<exists>i updated. findIndex (\<lambda>r. hr_id r = rid) (sys_requests st) = Some i
           \<and> updated = (sys_requests st ! i)\<lparr>hr_status := RESOLVED,
                 hr_resolvedAt := Some (env_resolvedAt env), hr_supervisorAnswer := answer\<rparr>
           \<and> fst (respond say env rid answer st) = Success updated
           \<and> sys_requests (snd (respond say env rid answer st))
                = (sys_requests st)[i := updated]"
    using a fi s by (simp add: respond_200 [OF _ fi] Let_def)
qed

theorem respond_outcomes_witness:
  "\<not> truthy None
   \<and> respond (\<lambda>h m. True) exampleEnv ''req_1'' None (systemOf [pendingRequest] Map.empty)
       = (Status400, systemOf [pendingRequest] Map.empty)
   \<and> truthy (Some ''Yes'') \<and> ''req_9'' \<notin> hr_id ` set (sys_requests (systemOf [pendingRequest] Map.empty))
   \<and> respond (\<lambda>h m. True) exampleEnv ''req_9'' (Some ''Yes'') (systemOf [pendingRequest] Map.empty)
       = (Status404, systemOf [pendingRequest] Map.empty)
   \<and> ''req_1'' \<in> hr_id ` set (sys_requests (systemOf [pendingRequest] Map.empty))
   \<and> fst (respond (\<lambda>h m. True) exampleEnv ''req_1'' (Some ''Yes'')
        (systemOf [pendingRequest] Map.empty))
       = Success (pendingRequest\<lparr>hr_status := RESOLVED, hr_resolvedAt := Some 5000,
           hr_supervisorAnswer := Some ''Yes''\<rparr>)"
  using respond_outcomes [of None "\<lambda>h m. True" exampleEnv "''req_1''"
      "systemOf [pendingRequest] Map.empty"]
    respond_outcomes [of "Some ''Yes''" "\<lambda>h m. True" exampleEnv "''req_9''"
      "systemOf [pendingRequest] Map.empty"]
    respond_outcomes [of "Some ''Yes''" "\<lambda>h m. True" exampleEnv "''req_1''"
      "systemOf [pendingRequest] Map.empty"]
  by (simp add: systemOf_def pendingRequest_def exampleEnv_def)

text \<open>
  C5: every successful call of the respond endpoint appends exactly one knowledge entry.
  Its source is \<open>learned\<close>, its question is the question of the request that was resolved,
  and its answer is the answer the supervisor supplied.
\<close>

theorem respond_learns:
  assumes "respond say env rid answer st = (Success updated, st')"
  shows "\<exists>a r e. answer = Some a
           \<and> find (\<lambda>r. hr_id r = rid) (sys_requests st) = Some r
           \<and> sys_knowledge st' = sys_knowledge st @ [e]
           \<and> kb_source e = learned \<and> kb_question e = hr_question r \<and> kb_answer e = a"
proof -
  have t: "truthy answer"
    using assms by (cases "truthy answer") (simp_all add: respond_400)
  then obtain a where a: "answer = Some a" by (cases answer) auto
  obtain i where fi: "findIndex (\<lambda>r. hr_id r = rid) (sys_requests st) = Some i"
    using assms t by (cases "findIndex (\<lambda>r. hr_id r = rid) (sys_requests st)")
      (simp_all add: respond_404)
  have "sys_knowledge st' = sys_knowledge st @
      [\<lparr>kb_id = env_kbId env, kb_question = hr_question (sys_requests st ! i),
        kb_answer = a, kb_category = Some ''supervisor-learned'',
        kb_createdAt = env_kbCreatedAt env, kb_updatedAt = env_kbUpdatedAt env,
        kb_source = learned\<rparr>]"
  proof -
    have "sys_knowledge (snd (respond say env rid answer st)) = sys_knowledge st @
      [\<lparr>kb_id = env_kbId env, kb_question = hr_question (sys_requests st ! i),
        kb_answer = a, kb_category = Some ''supervisor-learned'',
        kb_createdAt = env_kbCreatedAt env, kb_updatedAt = env_kbUpdatedAt env,
        kb_source = learned\<rparr>]"
      using respond_200 [OF t fi, of say env] unfolding a by (simp add: Let_def)
    then show ?thesis unfolding assms by simp
  qed
  with a findIndex_find [OF fi] show ?thesis by simp
qed

theorem respond_learns_witness:
  "respond (\<lambda>h m. True) exampleEnv ''req_1'' (Some ''Yes, free parking in the lot'')
       (systemOf [pendingRequest] Map.empty)
     = (Success (pendingRequest\<lparr>hr_status := RESOLVED, hr_resolvedAt := Some 5000,
           hr_supervisorAnswer := Some ''Yes, free parking in the lot''\<rparr>),
        \<lparr>sys_requests = [pendingRequest\<lparr>hr_status := RESOLVED, hr_resolvedAt := Some 5000,
           hr_supervisorAnswer := Some ''Yes, free parking in the lot''\<rparr>],
         sys_knowledge = [\<lparr>kb_id = ''kb_6'', kb_question = ''Do you have parking?'',
           kb_answer = ''Yes, free parking in the lot'',
           kb_category = Some ''supervisor-learned'', kb_createdAt = 5001, kb_updatedAt = 5002,
           kb_source = learned\<rparr>],
         sys_sessions = Map.empty,
         sys_log = [\<lparr>n_customerPhone = ''+1234567890'',
           n_message = ''Hi! I got an answer to your question: Yes, free parking in the lot'',
           n_delivered = False\<rparr>]\<rparr>)
   \<and> (\<exists>a r e. Some ''Yes, free parking in the lot'' = Some a
         \<and> find (\<lambda>r. hr_id r = ''req_1'') (sys_requests (systemOf [pendingRequest] Map.empty)) = Some r
         \<and> [\<lparr>kb_id = ''kb_6'', kb_question = ''Do you have parking?'',
           kb_answer = ''Yes, free parking in the lot'',
           kb_category = Some ''supervisor-learned'', kb_createdAt = 5001, kb_updatedAt = 5002,
           kb_source = learned\<rparr>] = sys_knowledge (systemOf [pendingRequest] Map.empty) @ [e]
         \<and> kb_source e = learned \<and> kb_question e = hr_question r \<and> kb_answer e = a)"
proof -
  have h: "respond (\<lambda>h m. True) exampleEnv ''req_1'' (Some ''Yes, free parking in the lot'')
       (systemOf [pendingRequest] Map.empty)
     = (Success (pendingRequest\<lparr>hr_status := RESOLVED, hr_resolvedAt := Some 5000,
           hr_supervisorAnswer := Some ''Yes, free parking in the lot''\<rparr>),
        \<lparr>sys_requests = [pendingRequest\<lparr>hr_status := RESOLVED, hr_resolvedAt := Some 5000,
           hr_supervisorAnswer := Some ''Yes, free parking in the lot''\<rparr>],
         sys_knowledge = [\<lparr>kb_id = ''kb_6'', kb_question = ''Do you have parking?'',
           kb_answer = ''Yes, free parking in the lot'',
           kb_category = Some ''supervisor-learned'', kb_createdAt = 5001, kb_updatedAt = 5002,
           kb_source = learned\<rparr>],
         sys_sessions = Map.empty,
         sys_log = [\<lparr>n_customerPhone = ''+1234567890'',
           n_message = ''Hi! I got an answer to your question: Yes, free parking in the lot'',
           n_delivered = False\<rparr>]\<rparr>)"
    by (simp add: respond_def systemOf_def pendingRequest_def exampleEnv_def Let_def
        updateHelpRequest_def spread_def noUpdates_def addKnowledge_def followUpWithCustomer_def
        notifyCustomer_def sendMessageToCustomer_def followUpMessage_def)
  from respond_learns [OF h] h show ?thesis by simp
qed

text \<open>
  C3: a request whose status is \<open>timeout\<close> is terminal, and the respond endpoint must not
  change its status. The endpoint does not look at the status: called for a timed-out
  request it answers success and stores the request as resolved.
\<close>

theorem respond_overwrites_timeout:
  "hr_status timedOutRequest = TIMEOUT
   \<and> fst (respond (\<lambda>h m. True) exampleEnv ''req_2'' (Some ''Yes, pets are welcome'')
        (systemOf [timedOutRequest] Map.empty))
       = Success (timedOutRequest\<lparr>hr_status := RESOLVED, hr_resolvedAt := Some 5000,
           hr_supervisorAnswer := Some ''Yes, pets are welcome''\<rparr>)
   \<and> map hr_status (sys_requests (snd (respond (\<lambda>h m. True) exampleEnv ''req_2''
        (Some ''Yes, pets are welcome'') (systemOf [timedOutRequest] Map.empty)))) = [RESOLVED]"
  by (simp add: respond_def systemOf_def timedOutRequest_def exampleEnv_def Let_def
      updateHelpRequest_def spread_def noUpdates_def addKnowledge_def)

section \<open>Properties of the knowledge resolver\<close>

lemma sort_key_eq_Nil: "(sort_key f xs = []) = (xs = [])"
proof -
  have "length (sort_key f xs) = length xs" by simp
  then show ?thesis by (metis length_0_conv)
qed

lemma hd_sort_key_first:
  fixes f :: "'a \<Rightarrow> 'k::linorder"
  assumes xs: "xs = as @ x # bs"
    and as: "\<forall>y\<in>set as. f x < f y"
    and bs: "\<forall>y\<in>set bs. f x \<le> f y"
  shows "hd (sort_key f xs) = x"
proof -
  let ?ys = "sort_key f xs"
  have "?ys \<noteq> []" using xs by (simp add: sort_key_eq_Nil)
  then obtain y ys where ys: "?ys = y # ys" by (cases ?ys) auto
  have sorted: "sorted (map f ?ys)" by (rule sorted_sort_key)
  have "x \<in> set ?ys" using xs by simp
  then have le1: "f y \<le> f x" using sorted ys by auto
  have "y \<in> set xs" using ys by (metis list.set_intros(1) set_sort)
  then have le2: "f x \<le> f y" using xs as bs by auto
  from le1 le2 have k: "f y = f x" by simp
  have "filter (\<lambda>z. f z = f x) ?ys = filter (\<lambda>z. f z = f x) xs"
    by (rule sort_key_stable)
  also have "\<dots> = x # filter (\<lambda>z. f z = f x) bs"
    using xs as by (auto simp: filter_empty_conv)
  finally have "filter (\<lambda>z. f z = f x) (y # ys) = x # filter (\<lambda>z. f z = f x) bs"
    using ys by simp
  with k have "y = x" by simp
  with ys show ?thesis by simp
qed

lemma splitWs_Nil: "splitWs [] = [[]]"
  by (subst splitWs.simps) simp

lemma queryWords_Nil: "queryWords [] = []"
  by (simp add: queryWords_def splitWs_Nil)

lemma expandedQueryWords_Nil: "expandedQueryWords [] = Inr []"
  by (simp add: expandedQueryWords_def newSet_def)

lemma strIncludes_Nil: "strIncludes s []"
  by (cases s) simp_all

lemma score_empty_query: "score [] [] entry = 100 + learnedBonus entry"
  by (simp add: score_def substringScore_def categoryScore_def keywordScore_def
      matchCount_def partialMatches_def strIncludes_Nil Let_def)

lemma scoredEntries_empty_query:
  "scoredEntries [] [] knowledge
     = sort_key (\<lambda>p. - snd p) (map (\<lambda>entry. (entry, 100 + learnedBonus entry)) knowledge)"
proof -
  have "filter (\<lambda>p. snd p > 0) (map (\<lambda>entry. (entry, 100 + learnedBonus entry)) knowledge)
          = map (\<lambda>entry. (entry, 100 + learnedBonus entry)) knowledge"
    by (induction knowledge) (simp_all add: learnedBonus_def)
  then show ?thesis by (simp add: scoredEntries_def score_empty_query)
qed

lemma searchKnowledge_empty_query_scored:
  "searchKnowledge knowledge [] =
     (case sort_key (\<lambda>p. - snd p) (map (\<lambda>entry. (entry, 100 + learnedBonus entry)) knowledge) of
        [] \<Rightarrow> Inr None | p # _ \<Rightarrow> Inr (Some (fst p)))"
  by (simp add: searchKnowledge_def toLowerCase_def trim_def queryWords_Nil
      expandedQueryWords_Nil scoredEntries_empty_query)

lemma searchKnowledge_empty_query_result:
  "searchKnowledge knowledge [] =
     Inr (case filter (\<lambda>entry. kb_source entry = learned) knowledge of
            entry # _ \<Rightarrow> Some entry
          | [] \<Rightarrow> (case knowledge of [] \<Rightarrow> None | entry # _ \<Rightarrow> Some entry))"
proof (cases "filter (\<lambda>entry. kb_source entry = learned) knowledge")
  case Nil
  show ?thesis
  proof (cases knowledge)
    case Nil
    then show ?thesis by (simp add: searchKnowledge_empty_query_scored)
  next
    case (Cons e es)
    let ?g = "\<lambda>entry. (entry, 100 + learnedBonus entry)"
    let ?ys = "sort_key (\<lambda>p. - snd p) (map ?g knowledge)"
    have all: "\<forall>x\<in>set knowledge. kb_source x \<noteq> learned"
      using \<open>filter (\<lambda>entry. kb_source entry = learned) knowledge = []\<close>
      by (simp add: filter_empty_conv)
    have "hd ?ys = ?g e"
    proof (rule hd_sort_key_first [where as = "[]" and bs = "map ?g es"])
      show "map ?g knowledge = [] @ ?g e # map ?g es" using Cons by simp
      show "\<forall>y\<in>set []. - snd (?g e) < - snd y" by simp
      show "\<forall>y\<in>set (map ?g es). - snd (?g e) \<le> - snd y"
        using all Cons by (auto simp: learnedBonus_def)
    qed
    moreover have "?ys \<noteq> []" using Cons by (simp add: sort_key_eq_Nil)
    ultimately obtain ps where "?ys = ?g e # ps" by (cases ?ys) auto
    then show ?thesis
      using Cons \<open>filter (\<lambda>entry. kb_source entry = learned) knowledge = []\<close>
      by (simp add: searchKnowledge_empty_query_scored)
  qed
next
  case (Cons e es)
  let ?g = "\<lambda>entry. (entry, 100 + learnedBonus entry)"
  let ?ys = "sort_key (\<lambda>p. - snd p) (map ?g knowledge)"
  from Cons obtain as bs where split: "knowledge = as @ e # bs"
    and as: "\<forall>x\<in>set as. kb_source x \<noteq> learned" and e: "kb_source e = learned"
    by (auto simp: filter_eq_Cons_iff)
  have "hd ?ys = ?g e"
  proof (rule hd_sort_key_first [where as = "map ?g as" and bs = "map ?g bs"])
    show "map ?g knowledge = map ?g as @ ?g e # map ?g bs" using split by simp
    show "\<forall>y\<in>set (map ?g as). - snd (?g e) < - snd y"
      using as e by (auto simp: learnedBonus_def)
    show "\<forall>y\<in>set (map ?g bs). - snd (?g e) \<le> - snd y"
      using e by (auto simp: learnedBonus_def)
  qed
  moreover have "?ys \<noteq> []" using split by (simp add: sort_key_eq_Nil)
  ultimately obtain ps where "?ys = ?g e # ps" by (cases ?ys) auto
  then show ?thesis using Cons by (simp add: searchKnowledge_empty_query_scored)
qed

text \<open>
  C7: the empty query. All tokens are filtered out, so the category and keyword parts
  of every score are zero; the empty string is a substring of every question, so every
  entry scores 100, and 110 when it is learned. The search returns the first learned entry
  when there is one, else the first entry, and none only for the empty snapshot.
\<close>

theorem searchKnowledge_empty_query:
  "queryWords (trim (toLowerCase [])) = []
   \<and> score (trim (toLowerCase [])) [] entry = 100 + learnedBonus entry
   \<and> searchKnowledge knowledge [] =
       Inr (case filter (\<lambda>entry. kb_source entry = learned) knowledge of
              entry # _ \<Rightarrow> Some entry
            | [] \<Rightarrow> (case knowledge of [] \<Rightarrow> None | entry # _ \<Rightarrow> Some entry))
   \<and> (searchKnowledge knowledge [] = Inr None) = (knowledge = [])"
proof -
  have n: "trim (toLowerCase []) = []" by (simp add: trim_def toLowerCase_def)
  have "(searchKnowledge knowledge [] = Inr None) = (knowledge = [])"
    by (simp add: searchKnowledge_empty_query_result split: list.splits)
  with n show ?thesis
    by (simp add: queryWords_Nil score_empty_query searchKnowledge_empty_query_result)
qed

text \<open>The empty query against a snapshot of one seed entry returns that entry.\<close>

theorem searchKnowledge_empty_query_counterexample:
  "searchKnowledge [haircutEntry] [] = Inr (Some haircutEntry)
   \<and> searchKnowledge [haircutEntry] [] \<noteq> Inr None"
  by code_simp

lemma strIncludes_sublist: "strIncludes s sub \<longleftrightarrow> sublist sub s"
  by (induction s) (simp_all add: sublist_Cons_right)

lemma distinct_setAdd: "distinct s \<Longrightarrow> distinct (setAdd s w)"
  by (simp add: setAdd_def)

lemma distinct_foldl_setAdd: "distinct s \<Longrightarrow> distinct (foldl setAdd s ws)"
  by (induction ws arbitrary: s) (simp_all add: distinct_setAdd)

lemma set_setAdd: "set (setAdd s w) = insert w (set s)"
  by (auto simp: setAdd_def)

lemma set_foldl_setAdd: "set (foldl setAdd s ws) = set s \<union> set ws"
  by (induction ws arbitrary: s) (auto simp: set_setAdd)

lemma distinct_addSynonyms:
  "distinct acc \<Longrightarrow> addSynonyms acc ws = Inr expanded \<Longrightarrow> distinct expanded"
proof (induction ws arbitrary: acc)
  case Nil
  then show ?case by simp
next
  case (Cons w ws)
  show ?case
  proof (cases "synonyms w")
    case (OwnList syns)
    with Cons.prems have "addSynonyms (foldl setAdd acc syns) ws = Inr expanded" by simp
    moreover have "distinct (foldl setAdd acc syns)"
      using Cons.prems by (simp add: distinct_foldl_setAdd)
    ultimately show ?thesis using Cons.IH by blast
  next
    case Inherited
    with Cons.prems show ?thesis by simp
  next
    case Undefined
    with Cons.prems have "addSynonyms acc ws = Inr expanded" by simp
    with Cons.prems Cons.IH show ?thesis by blast
  qed
qed

lemma distinct_expandedQueryWords:
  "expandedQueryWords qws = Inr expanded \<Longrightarrow> distinct expanded"
  unfolding expandedQueryWords_def newSet_def
  by (rule distinct_addSynonyms [of "foldl setAdd [] qws"]) (simp_all add: distinct_foldl_setAdd)

lemma length_filter_card:
  assumes "distinct xs"
  shows "int (length (filter P xs)) = int (card {x \<in> set xs. P x})"
proof -
  have "{x. P x} \<inter> set xs = {x \<in> set xs. P x}" by auto
  with distinct_length_filter [OF assms, of P] show ?thesis by simp
qed

lemma keywordScore_card:
  assumes d: "distinct expanded"
  shows "keywordScore expanded entry =
     20 * int (card {w \<in> set expanded.
                 w \<in> set (questionWords (trim (toLowerCase (kb_question entry))))})
     + 5 * int (card {w \<in> set expanded.
                 \<exists>q \<in> set (questionWords (trim (toLowerCase (kb_question entry)))).
                    sublist w q \<or> sublist q w})"
  unfolding keywordScore_def matchCount_def partialMatches_def Let_def
  by (simp add: length_filter_card [OF d] strIncludes_sublist disj_commute)

text \<open>
  C1: the keyword component of an entry's score, for the expanded tokens of any query
  whose expansion completes. It is 20 times the number of expanded tokens that equal a
  token of the entry's question, where the question tokens are the words longer than three
  characters (stop words are kept), plus 5 times the number of expanded tokens in a
  substring relation, in either direction, with a question token; the tokens counted as
  exact are counted here again.
\<close>

theorem keywordScore_counts:
  assumes "expandedQueryWords (queryWords (trim (toLowerCase query))) = Inr expanded"
  shows "keywordScore expanded entry =
     20 * int (card {w \<in> set expanded.
                 w \<in> set (questionWords (trim (toLowerCase (kb_question entry))))})
     + 5 * int (card {w \<in> set expanded.
                 \<exists>q \<in> set (questionWords (trim (toLowerCase (kb_question entry)))).
                    sublist w q \<or> sublist q w})"
  using assms by (intro keywordScore_card distinct_expandedQueryWords)

theorem keywordScore_counts_witness:
  "expandedQueryWords (queryWords (trim (toLowerCase ''haircut''))) = Inr [''haircut'']
   \<and> keywordScore [''haircut''] haircutEntry =
     20 * int (card {w \<in> set [''haircut''].
                 w \<in> set (questionWords (trim (toLowerCase (kb_question haircutEntry))))})
     + 5 * int (card {w \<in> set [''haircut''].
                 \<exists>q \<in> set (questionWords (trim (toLowerCase (kb_question haircutEntry)))).
                    sublist w q \<or> sublist q w})
   \<and> keywordScore [''haircut''] haircutEntry = 25"
proof -
  have h: "expandedQueryWords (queryWords (trim (toLowerCase ''haircut''))) = Inr [''haircut'']"
    by code_simp
  have v: "keywordScore [''haircut''] haircutEntry = 25"
    by code_simp
  from keywordScore_counts [OF h, of haircutEntry] h v show ?thesis by blast
qed

text \<open>
  The query \<open>haircut\<close> against the seed entry on haircut prices scores 25, not 20: the
  exact match is counted as a partial match too. The query \<open>location\<close> against the seed
  entry \<open>Where are you located?\<close> scores 25, not 0: its synonym \<open>where\<close> matches the question
  token \<open>where\<close>, which is a stop word.
\<close>

theorem keywordScore_counterexample:
  "expandedQueryWords (queryWords (trim (toLowerCase ''haircut''))) = Inr [''haircut'']
   \<and> keywordScore [''haircut''] haircutEntry = 25
   \<and> specKeywordScore [''haircut''] haircutEntry = 20
   \<and> expandedQueryWords (queryWords (trim (toLowerCase ''location'')))
       = Inr [''location'', ''address'', ''where'', ''find'']
   \<and> keywordScore [''location'', ''address'', ''where'', ''find''] locationEntry = 25
   \<and> specKeywordScore [''location'', ''address'', ''where'', ''find''] locationEntry = 0"
  by code_simp

lemma keywordScore_exact_counts_25:
  assumes "expandedQueryWords (queryWords (trim (toLowerCase query))) = Inr expanded"
  shows "keywordScore expanded entry =
     25 * int (card {w \<in> set expanded.
                 w \<in> set (questionWords (trim (toLowerCase (kb_question entry))))})
     + 5 * int (card {w \<in> set expanded.
                 w \<notin> set (questionWords (trim (toLowerCase (kb_question entry))))
                 \<and> (\<exists>q \<in> set (questionWords (trim (toLowerCase (kb_question entry)))).
                    sublist w q \<or> sublist q w)})"
proof -
  let ?qs = "set (questionWords (trim (toLowerCase (kb_question entry))))"
  let ?E = "{w \<in> set expanded. w \<in> ?qs}"
  let ?P = "{w \<in> set expanded. \<exists>q \<in> ?qs. sublist w q \<or> sublist q w}"
  let ?D = "{w \<in> set expanded. w \<notin> ?qs \<and> (\<exists>q \<in> ?qs. sublist w q \<or> sublist q w)}"
  have "?P = ?E \<union> ?D" by auto
  moreover have "?E \<inter> ?D = {}" by auto
  moreover have "finite ?E" "finite ?D" by simp_all
  ultimately have "card ?P = card ?E + card ?D"
    by (simp add: card_Un_disjoint)
  with keywordScore_card [OF distinct_expandedQueryWords [OF assms], of entry]
  show ?thesis by simp
qed

text \<open>
  The expansion completes exactly when no query word is one of the inherited property
  names, and then holds the query words and, for each query word that is a key of the
  table, its synonyms.
\<close>

lemma addSynonyms_completes:
  assumes "\<forall>w\<in>set ws. synonyms w \<noteq> Inherited"
  shows "\<exists>expanded. addSynonyms acc ws = Inr expanded"
  using assms
proof (induction ws arbitrary: acc)
  case Nil
  then show ?case by simp
next
  case (Cons w ws)
  then show ?case by (cases "synonyms w") simp_all
qed

lemma addSynonyms_fails:
  assumes "\<exists>w\<in>set ws. synonyms w = Inherited"
  shows "addSynonyms acc ws = Inl TypeError"
  using assms
proof (induction ws arbitrary: acc)
  case Nil
  then show ?case by simp
next
  case (Cons w ws)
  then show ?case by (cases "synonyms w") auto
qed

lemma expandedQueryWords_completes:
  "(\<exists>expanded. expandedQueryWords qws = Inr expanded)
     = (\<forall>w\<in>set qws. synonyms w \<noteq> Inherited)"
proof (cases "\<forall>w\<in>set qws. synonyms w \<noteq> Inherited")
  case True
  with addSynonyms_completes [of qws "newSet qws"] show ?thesis
    by (simp add: expandedQueryWords_def)
next
  case False
  then have "\<exists>w\<in>set qws. synonyms w = Inherited" by simp
  from addSynonyms_fails [OF this, of "newSet qws"] False show ?thesis
    by (simp add: expandedQueryWords_def)
qed

lemma synonyms_Inherited: "(synonyms w = Inherited) = (w \<in> set inheritedNames)"
proof (cases "map_of synonymTable w")
  case None
  then show ?thesis by (simp add: synonyms_def)
next
  case (Some syns)
  then have "(w, syns) \<in> set synonymTable" by (rule map_of_SomeD)
  then have "w \<notin> set inheritedNames"
    by (auto simp: synonymTable_def inheritedNames_def)
  with Some show ?thesis by (simp add: synonyms_def)
qed

lemma set_addSynonyms:
  assumes "addSynonyms acc ws = Inr expanded"
  shows "set expanded = set acc \<union> {s. \<exists>w\<in>set ws. \<exists>syns. synonyms w = OwnList syns \<and> s \<in> set syns}"
  using assms
proof (induction ws arbitrary: acc)
  case Nil
  then show ?case by simp
next
  case (Cons w ws)
  show ?case
  proof (cases "synonyms w")
    case (OwnList syns)
    with Cons.prems have "addSynonyms (foldl setAdd acc syns) ws = Inr expanded" by simp
    from Cons.IH [OF this] OwnList show ?thesis
      by (auto simp: set_foldl_setAdd)
  next
    case Inherited
    with Cons.prems show ?thesis by simp
  next
    case Undefined
    with Cons.prems have "addSynonyms acc ws = Inr expanded" by simp
    from Cons.IH [OF this] Undefined show ?thesis by auto
  qed
qed

lemma set_expandedQueryWords:
  assumes "expandedQueryWords qws = Inr expanded"
  shows "set expanded
           = set qws \<union> {s. \<exists>w\<in>set qws. \<exists>syns. synonyms w = OwnList syns \<and> s \<in> set syns}"
  using set_addSynonyms [of "newSet qws" qws expanded] assms
  by (simp add: expandedQueryWords_def newSet_def set_foldl_setAdd)

text \<open>
  The selection among the scored entries, for a query whose expansion completes: the
  search returns none exactly when no entry scores above zero, and otherwise the first
  entry, in store order, of the highest score.
\<close>

lemma first_best_exists:
  fixes f :: "'a \<Rightarrow> int"
  assumes "\<exists>e\<in>set xs. 0 < f e"
  shows "\<exists>i<length xs. 0 < f (xs ! i) \<and> (\<forall>j<length xs. f (xs ! j) \<le> f (xs ! i))
           \<and> (\<forall>j<i. f (xs ! j) < f (xs ! i))"
  using assms
proof (induction xs)
  case Nil
  then show ?case by simp
next
  case (Cons x xs)
  show ?case
  proof (cases "\<forall>e\<in>set xs. f e \<le> f x")
    case True
    with Cons.prems have "0 < f x" by fastforce
    moreover have "\<forall>j<length (x # xs). f ((x # xs) ! j) \<le> f x"
      using True by (auto simp: nth_Cons split: nat.splits)
    ultimately show ?thesis by (intro exI [of _ 0]) simp
  next
    case False
    then obtain e where e: "e \<in> set xs" "f x < f e" by auto
    have "\<exists>e\<in>set xs. 0 < f e"
    proof (cases "0 < f x")
      case True
      with e have "0 < f e" by linarith
      with e(1) show ?thesis by blast
    next
      case False
      with Cons.prems show ?thesis by auto
    qed
    from Cons.IH [OF this] obtain i where i: "i < length xs" "0 < f (xs ! i)"
      "\<forall>j<length xs. f (xs ! j) \<le> f (xs ! i)" "\<forall>j<i. f (xs ! j) < f (xs ! i)"
      by blast
    from e(1) obtain k where "k < length xs" "xs ! k = e" by (auto simp: in_set_conv_nth)
    with i(3) e(2) have gt: "f x < f (xs ! i)" by force
    have "\<forall>j<length (x # xs). f ((x # xs) ! j) \<le> f (xs ! i)"
      using i(3) gt by (auto simp: nth_Cons split: nat.splits)
    moreover have "\<forall>j<Suc i. f ((x # xs) ! j) < f (xs ! i)"
      using i(4) gt by (auto simp: nth_Cons split: nat.splits)
    ultimately show ?thesis using i(1,2) by (intro exI [of _ "Suc i"]) simp
  qed
qed

lemma searchKnowledge_none:
  assumes ex: "expandedQueryWords (queryWords (trim (toLowerCase query))) = Inr expanded"
    and le: "\<forall>e\<in>set knowledge. score (trim (toLowerCase query)) expanded e \<le> 0"
  shows "searchKnowledge knowledge query = Inr None"
proof -
  have "filter (\<lambda>p. snd p > 0)
          (map (\<lambda>entry. (entry, score (trim (toLowerCase query)) expanded entry)) knowledge) = []"
    using le by (auto simp: filter_empty_conv)
  then show ?thesis
    using ex by (simp add: searchKnowledge_def scoredEntries_def)
qed

lemma searchKnowledge_first_best:
  assumes ex: "expandedQueryWords (queryWords (trim (toLowerCase query))) = Inr expanded"
    and i: "i < length knowledge"
    and pos: "0 < score (trim (toLowerCase query)) expanded (knowledge ! i)"
    and best: "\<forall>j<length knowledge. score (trim (toLowerCase query)) expanded (knowledge ! j)
                 \<le> score (trim (toLowerCase query)) expanded (knowledge ! i)"
    and first: "\<forall>j<i. score (trim (toLowerCase query)) expanded (knowledge ! j)
                 < score (trim (toLowerCase query)) expanded (knowledge ! i)"
  shows "searchKnowledge knowledge query = Inr (Some (knowledge ! i))"
proof -
  let ?sc = "score (trim (toLowerCase query)) expanded"
  let ?g = "\<lambda>entry. (entry, ?sc entry)"
  let ?P = "\<lambda>p::KnowledgeEntry \<times> int. snd p > 0"
  let ?as = "filter ?P (map ?g (take i knowledge))"
  let ?bs = "filter ?P (map ?g (drop (Suc i) knowledge))"
  let ?x = "?g (knowledge ! i)"
  have kn: "knowledge = take i knowledge @ knowledge ! i # drop (Suc i) knowledge"
    using i by (rule id_take_nth_drop)
  have "filter ?P (map ?g knowledge)
          = filter ?P (map ?g (take i knowledge @ knowledge ! i # drop (Suc i) knowledge))"
    using kn by simp
  also have "\<dots> = ?as @ ?x # ?bs" using pos by simp
  finally have xs: "filter ?P (map ?g knowledge) = ?as @ ?x # ?bs" .
  have as: "\<forall>y\<in>set ?as. - snd ?x < - snd y"
  proof
    fix y assume "y \<in> set ?as"
    then obtain e where e: "e \<in> set (take i knowledge)" "y = ?g e" by auto
    then obtain j where "j < i" "e = knowledge ! j"
      using i by (auto simp: in_set_conv_nth)
    with first e show "- snd ?x < - snd y" by simp
  qed
  have bs: "\<forall>y\<in>set ?bs. - snd ?x \<le> - snd y"
  proof
    fix y assume "y \<in> set ?bs"
    then obtain e where e: "e \<in> set (drop (Suc i) knowledge)" "y = ?g e" by auto
    then have "e \<in> set knowledge" by (meson in_set_dropD)
    then obtain j where "j < length knowledge" "e = knowledge ! j"
      by (auto simp: in_set_conv_nth)
    with best e show "- snd ?x \<le> - snd y" by simp
  qed
  have hd: "hd (scoredEntries (trim (toLowerCase query)) expanded knowledge) = ?x"
    unfolding scoredEntries_def by (rule hd_sort_key_first [OF xs as bs])
  have "scoredEntries (trim (toLowerCase query)) expanded knowledge \<noteq> []"
    unfolding scoredEntries_def using xs by (simp add: sort_key_eq_Nil)
  with hd obtain ps where "scoredEntries (trim (toLowerCase query)) expanded knowledge = ?x # ps"
    by (cases "scoredEntries (trim (toLowerCase query)) expanded knowledge") auto
  then show ?thesis using ex by (simp add: searchKnowledge_def)
qed

lemma searchKnowledge_selection:
  assumes ex: "expandedQueryWords (queryWords (trim (toLowerCase query))) = Inr expanded"
  shows "(searchKnowledge knowledge query = Inr None)
           = (\<forall>e\<in>set knowledge. score (trim (toLowerCase query)) expanded e \<le> 0)"
    and "(searchKnowledge knowledge query = Inr (Some entry))
           = (\<exists>i<length knowledge. entry = knowledge ! i
                \<and> 0 < score (trim (toLowerCase query)) expanded entry
                \<and> (\<forall>j<length knowledge. score (trim (toLowerCase query)) expanded (knowledge ! j)
                       \<le> score (trim (toLowerCase query)) expanded entry)
                \<and> (\<forall>j<i. score (trim (toLowerCase query)) expanded (knowledge ! j)
                       < score (trim (toLowerCase query)) expanded entry))"
proof -
  let ?sc = "score (trim (toLowerCase query)) expanded"
  show "(searchKnowledge knowledge query = Inr None) = (\<forall>e\<in>set knowledge. ?sc e \<le> 0)"
  proof (cases "\<forall>e\<in>set knowledge. ?sc e \<le> 0")
    case True
    with searchKnowledge_none [OF ex] show ?thesis by simp
  next
    case False
    then have "\<exists>e\<in>set knowledge. 0 < ?sc e" by (auto simp: not_le)
    from first_best_exists [OF this] obtain i where "i < length knowledge"
      "0 < ?sc (knowledge ! i)" "\<forall>j<length knowledge. ?sc (knowledge ! j) \<le> ?sc (knowledge ! i)"
      "\<forall>j<i. ?sc (knowledge ! j) < ?sc (knowledge ! i)" by blast
    from searchKnowledge_first_best [OF ex this] False show ?thesis by simp
  qed
  show "(searchKnowledge knowledge query = Inr (Some entry))
           = (\<exists>i<length knowledge. entry = knowledge ! i \<and> 0 < ?sc entry
                \<and> (\<forall>j<length knowledge. ?sc (knowledge ! j) \<le> ?sc entry)
                \<and> (\<forall>j<i. ?sc (knowledge ! j) < ?sc entry))" (is "?L = ?R")
  proof
    assume R: ?R
    then obtain i where "i < length knowledge" "entry = knowledge ! i" "0 < ?sc (knowledge ! i)"
      "\<forall>j<length knowledge. ?sc (knowledge ! j) \<le> ?sc (knowledge ! i)"
      "\<forall>j<i. ?sc (knowledge ! j) < ?sc (knowledge ! i)" by blast
    with searchKnowledge_first_best [OF ex, of i knowledge] show ?L by simp
  next
    assume L: ?L
    have "\<exists>e\<in>set knowledge. 0 < ?sc e"
    proof (rule ccontr)
      assume "\<not> (\<exists>e\<in>set knowledge. 0 < ?sc e)"
      then have "\<forall>e\<in>set knowledge. ?sc e \<le> 0" by (auto simp: not_less)
      from searchKnowledge_none [OF ex this] L show False by simp
    qed
    from first_best_exists [OF this] obtain i where i: "i < length knowledge"
      "0 < ?sc (knowledge ! i)" "\<forall>j<length knowledge. ?sc (knowledge ! j) \<le> ?sc (knowledge ! i)"
      "\<forall>j<i. ?sc (knowledge ! j) < ?sc (knowledge ! i)" by blast
    from searchKnowledge_first_best [OF ex i] L have "entry = knowledge ! i" by simp
    with i show ?R by blast
  qed
qed

text \<open>
  C2: the search must return the best entry, or none, for every query. For the query
  \<open>constructor\<close> it returns neither: the lookup \<open>synonyms[word]\<close> finds the inherited
  \<open>constructor\<close> property, the call of its \<open>forEach\<close> raises a \<open>TypeError\<close>, and the
  search ends with that error whatever the snapshot holds.
\<close>

theorem searchKnowledge_constructor: "searchKnowledge knowledge ''constructor'' = Inl TypeError"
proof -
  have "expandedQueryWords (queryWords (trim (toLowerCase ''constructor''))) = Inl TypeError"
    by code_simp
  then show ?thesis by (simp add: searchKnowledge_def)
qed

section \<open>Properties of the poller\<close>

lemma notifyCustomer_log:
  "map sent (sys_log (notifyCustomer say p m st)) = map sent (sys_log st) @ [(p, m)]"
  by (simp add: notifyCustomer_def sent_def split: prod.splits)

lemma notifyCustomer_requests [simp]:
  "sys_requests (notifyCustomer say p m st) = sys_requests st"
  by (simp add: notifyCustomer_def split: prod.splits)

lemma notifyCustomer_knowledge [simp]:
  "sys_knowledge (notifyCustomer say p m st) = sys_knowledge st"
  by (simp add: notifyCustomer_def split: prod.splits)

lemma pollRequests_log:
  "map sent (sys_log (pollRequests say ps st))
     = map sent (sys_log st) @ map followUpOf (filter answered ps)"
  by (induction ps arbitrary: st) (simp_all add: Let_def notifyCustomer_log followUpOf_def)

lemma pollRequests_knowledge: "sys_knowledge (pollRequests say ps st) = sys_knowledge st"
  by (induction ps arbitrary: st) (simp_all add: Let_def)

lemma updateHelpRequest_map:
  assumes "distinct (map hr_id requests)"
  shows "snd (updateHelpRequest rid updates requests)
           = map (\<lambda>r. if hr_id r = rid then spread r updates else r) requests"
proof (cases "findIndex (\<lambda>r. hr_id r = rid) requests")
  case None
  then have "\<forall>r\<in>set requests. hr_id r \<noteq> rid" by (simp add: findIndex_None)
  then have "map (\<lambda>r. if hr_id r = rid then spread r updates else r) requests = requests"
    by (simp add: map_idI)
  with None show ?thesis by (simp add: updateHelpRequest_absent)
next
  case (Some i)
  then have i: "i < length requests" "hr_id (requests ! i) = rid"
    by (simp_all add: findIndex_Some)
  have "requests[i := spread (requests ! i) updates]
          = map (\<lambda>r. if hr_id r = rid then spread r updates else r) requests"
  proof (rule nth_equalityI)
    show "length (requests[i := spread (requests ! i) updates])
            = length (map (\<lambda>r. if hr_id r = rid then spread r updates else r) requests)"
      by simp
  next
    fix j assume "j < length (requests[i := spread (requests ! i) updates])"
    then have j: "j < length requests" by simp
    show "requests[i := spread (requests ! i) updates] ! j
            = map (\<lambda>r. if hr_id r = rid then spread r updates else r) requests ! j"
    proof (cases "j = i")
      case True
      with i show ?thesis by simp
    next
      case False
      have "hr_id (requests ! j) \<noteq> rid"
      proof
        assume "hr_id (requests ! j) = rid"
        with i j have "map hr_id requests ! j = map hr_id requests ! i" by simp
        with assms i(1) j have "j = i"
          using nth_eq_iff_index_eq [of "map hr_id requests" j i] by simp
        with False show False by simp
      qed
      with False j show ?thesis by simp
    qed
  qed
  with Some show ?thesis by (simp add: updateHelpRequest_present)
qed

lemma spread_status:
  "spread r (noUpdates\<lparr>u_status := Some s\<rparr>) = r\<lparr>hr_status := s\<rparr>"
  by (simp add: spread_def noUpdates_def)

lemma markResolved_ids: "map hr_id (markResolved ids requests) = map hr_id requests"
  by (simp add: markResolved_def)

lemma markResolved_insert:
  "markResolved ids (markResolved {rid} requests) = markResolved (insert rid ids) requests"
  by (simp add: markResolved_def)

lemma pollRequests_requests:
  assumes "distinct (map hr_id (sys_requests st))"
  shows "sys_requests (pollRequests say ps st)
           = markResolved (hr_id ` {p \<in> set ps. answered p}) (sys_requests st)"
  using assms
proof (induction ps arbitrary: st)
  case Nil
  then show ?case by (simp add: markResolved_def)
next
  case (Cons p ps)
  show ?case
  proof (cases "answered p")
    case False
    have "{q \<in> set (p # ps). answered q} = {q \<in> set ps. answered q}"
      using False by auto
    with False Cons show ?thesis by simp
  next
    case True
    let ?st1 = "notifyCustomer say (hr_customerPhone p)
                  (followUpMessage (the (hr_supervisorAnswer p))) st"
    let ?st2 = "?st1\<lparr>sys_requests :=
                  snd (updateHelpRequest (hr_id p) (noUpdates\<lparr>u_status := Some RESOLVED\<rparr>)
                         (sys_requests ?st1))\<rparr>"
    have r2: "sys_requests ?st2 = markResolved {hr_id p} (sys_requests st)"
      using Cons.prems
      by (simp add: updateHelpRequest_map spread_status markResolved_def)
    then have d2: "distinct (map hr_id (sys_requests ?st2))"
      using Cons.prems by (simp add: markResolved_ids)
    have "{q \<in> set (p # ps). answered q} = insert p {q \<in> set ps. answered q}"
      using True by auto
    then have ids: "hr_id ` {q \<in> set (p # ps). answered q}
                      = insert (hr_id p) (hr_id ` {q \<in> set ps. answered q})"
      by simp
    have "sys_requests (pollRequests say (p # ps) st) = sys_requests (pollRequests say ps ?st2)"
      using True by (simp add: Let_def)
    also have "\<dots> = markResolved (hr_id ` {q \<in> set ps. answered q}) (sys_requests ?st2)"
      by (rule Cons.IH [OF d2])
    also have "\<dots> = markResolved (hr_id ` {q \<in> set (p # ps). answered q}) (sys_requests st)"
      unfolding r2 ids by (rule markResolved_insert)
    finally show ?thesis .
  qed
qed


lemma sweep_noop: "\<not> list_ex (expired now) requests \<Longrightarrow> sweep now requests = requests"
  by (simp add: sweep_def list_ex_iff map_idI)

lemma getPendingHelpRequests_stored:
  "snd (getPendingHelpRequests now requests) = sweep now requests"
  by (simp add: getPendingHelpRequests_def Let_def sweep_noop)

lemma getPendingHelpRequests_pending:
  "fst (getPendingHelpRequests now requests)
     = filter (\<lambda>r. hr_status r = PENDING) (sweep now requests)"
  by (simp add: getPendingHelpRequests_def Let_def)

lemma sweep_ids: "map hr_id (sweep now requests) = map hr_id requests"
  by (simp add: sweep_def)

lemma sweep_map: "sweep now requests = map (sweepOne now) requests"
  by (simp add: sweep_def sweepOne_def)

lemma sweepOne_pending:
  "(hr_status (sweepOne now r) = PENDING) = (hr_status r = PENDING \<and> \<not> hr_timeoutAt r < now)"
  by (auto simp: sweepOne_def expired_def)

lemma sweepOne_answered [simp]: "answered (sweepOne now r) = answered r"
  by (simp add: sweepOne_def answered_def)

lemma sweepOne_followUpOf [simp]: "followUpOf (sweepOne now r) = followUpOf r"
  by (simp add: sweepOne_def followUpOf_def)

lemma sweepOne_id [simp]: "hr_id (sweepOne now r) = hr_id r"
  by (simp add: sweepOne_def)

lemma checkForSupervisorResponses_poll:
  "checkForSupervisorResponses say now st
     = pollRequests say (filter (\<lambda>r. hr_status r = PENDING) (sweep now (sys_requests st)))
         (st\<lparr>sys_requests := sweep now (sys_requests st)\<rparr>)"
  using getPendingHelpRequests_stored [of now "sys_requests st"]
    getPendingHelpRequests_pending [of now "sys_requests st"]
  by (cases "getPendingHelpRequests now (sys_requests st)")
    (simp add: checkForSupervisorResponses_def)

lemma followUps_sweep:
  "map followUpOf (filter (\<lambda>r. hr_status r = PENDING \<and> answered r)
       (map (sweepOne now) requests))
     = map followUpOf
         (filter (\<lambda>r. hr_status r = PENDING \<and> \<not> hr_timeoutAt r < now \<and> answered r) requests)"
  by (induction requests) (auto simp: sweepOne_pending)

lemma check_log:
  "map sent (sys_log (checkForSupervisorResponses say now st))
     = map sent (sys_log st)
       @ map followUpOf
           (filter (\<lambda>r. hr_status r = PENDING \<and> \<not> hr_timeoutAt r < now \<and> answered r)
              (sys_requests st))"
  by (simp add: checkForSupervisorResponses_poll pollRequests_log sweep_map followUps_sweep)

lemma check_requests:
  assumes d: "distinct (map hr_id (sys_requests st))"
  shows "sys_requests (checkForSupervisorResponses say now st)
     = map (\<lambda>r. if expired now r then r\<lparr>hr_status := TIMEOUT\<rparr>
                else if hr_status r = PENDING \<and> answered r then r\<lparr>hr_status := RESOLVED\<rparr>
                else r)
         (sys_requests st)"
proof -
  let ?rs = "sys_requests st"
  let ?ids = "hr_id ` {p \<in> set (filter (\<lambda>r. hr_status r = PENDING) (sweep now ?rs)). answered p}"
  have inj: "inj_on hr_id (set ?rs)" using d by (simp add: distinct_map)
  have mem: "(hr_id r \<in> ?ids) = (hr_status r = PENDING \<and> \<not> hr_timeoutAt r < now \<and> answered r)"
    if r: "r \<in> set ?rs" for r
  proof
    assume "hr_id r \<in> ?ids"
    then obtain r' where r': "r' \<in> set ?rs" "hr_status (sweepOne now r') = PENDING"
      "answered r'" "hr_id r' = hr_id r"
      by (auto simp: sweep_map)
    with inj r have "r' = r" by (auto dest: inj_onD)
    with r' show "hr_status r = PENDING \<and> \<not> hr_timeoutAt r < now \<and> answered r"
      by (simp add: sweepOne_pending)
  next
    assume a: "hr_status r = PENDING \<and> \<not> hr_timeoutAt r < now \<and> answered r"
    then have "sweepOne now r \<in> {p \<in> set (filter (\<lambda>r. hr_status r = PENDING) (sweep now ?rs)).
                 answered p}"
      using r by (simp add: sweep_map sweepOne_pending)
    then have "hr_id (sweepOne now r) \<in> ?ids" by (rule imageI)
    then show "hr_id r \<in> ?ids" by simp
  qed
  have "distinct (map hr_id (sys_requests (st\<lparr>sys_requests := sweep now ?rs\<rparr>)))"
    using d by (simp add: sweep_ids)
  from pollRequests_requests [OF this]
  have "sys_requests (checkForSupervisorResponses say now st) = markResolved ?ids (sweep now ?rs)"
    by (simp add: checkForSupervisorResponses_poll)
  also have "\<dots> = map (\<lambda>r. if hr_id r \<in> ?ids then (sweepOne now r)\<lparr>hr_status := RESOLVED\<rparr>
                          else sweepOne now r) ?rs"
    by (simp add: markResolved_def sweep_map comp_def)
  also have "\<dots> = map (\<lambda>r. if expired now r then r\<lparr>hr_status := TIMEOUT\<rparr>
                else if hr_status r = PENDING \<and> answered r then r\<lparr>hr_status := RESOLVED\<rparr>
                else r) ?rs"
  proof (rule map_cong [OF refl])
    fix r assume "r \<in> set ?rs"
    from mem [OF this]
    show "(if hr_id r \<in> ?ids then (sweepOne now r)\<lparr>hr_status := RESOLVED\<rparr> else sweepOne now r)
            = (if expired now r then r\<lparr>hr_status := TIMEOUT\<rparr>
               else if hr_status r = PENDING \<and> answered r then r\<lparr>hr_status := RESOLVED\<rparr>
               else r)"
      by (auto simp: sweepOne_def expired_def)
  qed
  finally show ?thesis .
qed

text \<open>
  One tick of the poller on any collection whose ids are distinct. The pending list is
  read, which turns every expired pending request into a timed-out one. The customers of
  the requests that are still pending and carry both an answer and a resolution time are
  notified, in store order, and these requests are stored as resolved; no other request
  is looked at.
\<close>

lemma checkForSupervisorResponses_effect:
  assumes "distinct (map hr_id (sys_requests st))"
  shows "map sent (sys_log (checkForSupervisorResponses say now st))
           = map sent (sys_log st)
             @ map followUpOf
                 (filter (\<lambda>r. hr_status r = PENDING \<and> \<not> hr_timeoutAt r < now \<and> answered r)
                    (sys_requests st))
         \<and> sys_requests (checkForSupervisorResponses say now st)
           = map (\<lambda>r. if expired now r then r\<lparr>hr_status := TIMEOUT\<rparr>
                      else if hr_status r = PENDING \<and> answered r then r\<lparr>hr_status := RESOLVED\<rparr>
                      else r)
               (sys_requests st)
         \<and> sys_knowledge (checkForSupervisorResponses say now st) = sys_knowledge st"
  using check_log [of say now st] check_requests [OF assms, of say now]
  by (simp add: checkForSupervisorResponses_poll pollRequests_knowledge)

text \<open>
  Escalation, the respond endpoint, the sweep and the poller keep every answered request
  resolved, starting from the empty collection. On such a collection no pending request
  is answered, so a tick notifies nobody and stores what the sweep leaves.
\<close>

lemma answersResolved_Nil: "answersResolved []"
  by (simp add: answersResolved_def)

lemma answersResolved_escalate:
  assumes "answersResolved requests"
  shows "answersResolved (snd (escalateToSupervisor newId nowCreated nowTimeout context requests))"
  using assms
  by (simp add: answersResolved_def escalateToSupervisor_def createHelpRequest_def Let_def)

lemma answersResolved_update:
  assumes "answersResolved requests" and "u_status updates = Some RESOLVED"
  shows "answersResolved (snd (updateHelpRequest rid updates requests))"
proof (cases "findIndex (\<lambda>r. hr_id r = rid) requests")
  case None
  with assms show ?thesis by (simp add: updateHelpRequest_absent)
next
  case (Some i)
  have "hr_status (spread (requests ! i) updates) = RESOLVED"
    using assms(2) by (simp add: spread_def)
  moreover have "set (requests[i := spread (requests ! i) updates])
                   \<subseteq> insert (spread (requests ! i) updates) (set requests)"
    by (rule set_update_subset_insert)
  ultimately show ?thesis
    using assms(1) Some
    by (auto simp: answersResolved_def list_all_iff updateHelpRequest_present)
qed

lemma answersResolved_respond:
  assumes "answersResolved (sys_requests st)"
  shows "answersResolved (sys_requests (snd (respond say env rid answer st)))"
proof (cases "truthy answer")
  case False
  with assms show ?thesis by (simp add: respond_400)
next
  case True
  show ?thesis
  proof (cases "findIndex (\<lambda>r. hr_id r = rid) (sys_requests st)")
    case None
    with True assms show ?thesis by (simp add: respond_404)
  next
    case (Some i)
    have "sys_requests (snd (respond say env rid answer st))
            = snd (updateHelpRequest rid
                 (noUpdates\<lparr>u_status := Some RESOLVED,
                            u_supervisorAnswer := Some (Some (the answer)),
                            u_resolvedAt := Some (Some (env_resolvedAt env))\<rparr>)
                 (sys_requests st))"
      by (simp add: respond_200 [OF True Some] Let_def updateHelpRequest_present [OF Some]
          spread_resolve)
    with assms show ?thesis by (simp add: answersResolved_update)
  qed
qed

lemma answersResolved_sweep:
  assumes "answersResolved requests"
  shows "answersResolved (sweep now requests)"
  using assms by (auto simp: answersResolved_def list_all_iff sweep_def expired_def)

lemma pollRequests_none_answered:
  assumes "\<forall>p\<in>set ps. \<not> answered p"
  shows "pollRequests say ps st = st"
  using assms by (induction ps arbitrary: st) simp_all

lemma poller_sends_nothing:
  assumes "answersResolved (sys_requests st)"
  shows "checkForSupervisorResponses say now st = st\<lparr>sys_requests := sweep now (sys_requests st)\<rparr>"
proof -
  have "\<forall>p\<in>set (filter (\<lambda>r. hr_status r = PENDING) (sweep now (sys_requests st))). \<not> answered p"
    using answersResolved_sweep [OF assms, of now]
    by (auto simp: answersResolved_def list_all_iff answered_def)
  then show ?thesis
    by (simp add: checkForSupervisorResponses_poll pollRequests_none_answered)
qed

lemma answersResolved_poll:
  assumes "answersResolved (sys_requests st)"
  shows "answersResolved (sys_requests (checkForSupervisorResponses say now st))"
  using assms by (simp add: poller_sends_nothing answersResolved_sweep)


end
